theory Spec2Isabelle
  imports Complex_Main "HOL-Library.Word" "HOL-Library.Sublist" "HOL-Library.AList"
begin

section \<open>Strings of the program\<close>

text \<open>
  A JavaScript string is a sequence of UTF-16 code units. \<open>length\<close> is the source's
  \<open>.length\<close> (it counts code units, as the \<open>maxLength\<close> attribute of an input does).
  \<open>js\<close> turns a literal of the theory into such a string.
\<close>

type_synonym jsstring = "16 word list"

definition js :: "string \<Rightarrow> jsstring" where
  "js s = map of_char s"

text \<open>
  The code units \<open>String.prototype.trim\<close> strips: WhiteSpace (TAB, VT, FF, ZWNBSP and
  the Unicode category Zs) and LineTerminator (LF, CR, LS, PS) of ECMAScript.
\<close>

definition white_space_units :: "16 word list" where
  "white_space_units =
     [0x0009, 0x000A, 0x000B, 0x000C, 0x000D, 0x0020, 0x00A0, 0x1680,
      0x2000, 0x2001, 0x2002, 0x2003, 0x2004, 0x2005, 0x2006, 0x2007, 0x2008, 0x2009, 0x200A,
      0x2028, 0x2029, 0x202F, 0x205F, 0x3000, 0xFEFF]"

definition is_white_space :: "16 word \<Rightarrow> bool" where
  "is_white_space c = (c \<in> set white_space_units)"

definition trim :: "jsstring \<Rightarrow> jsstring" where
  "trim s = rev (dropWhile is_white_space (rev (dropWhile is_white_space s)))"

text \<open>\<open>s.includes(sub)\<close>: \<open>sub\<close> occurs in \<open>s\<close> as a contiguous run of code units.\<close>

fun includes_js :: "jsstring \<Rightarrow> jsstring \<Rightarrow> bool" where
  "includes_js [] sub = (sub = [])"
| "includes_js (c # cs) sub = (prefix sub (c # cs) \<or> includes_js cs sub)"

section \<open>The state of the component\<close>

text \<open>
  App.js, lines 19-22: a task is \<open>{ id, text, completed }\<close>. The id is the value of
  \<open>Date.now()\<close> at creation, an integral Number. Lines 27-32: the state variables of
  \<open>App\<close>; \<open>editingId\<close> is \<open>null\<close> or a task id.
\<close>

record task =
  task_id :: int
  task_text :: jsstring
  completed :: bool

record app =
  tasks :: "task list"
  filter_mode :: jsstring
  search :: jsstring
  input :: jsstring
  editingId :: "int option"
  editInput :: jsstring

definition initial :: "task list \<Rightarrow> app" where
  "initial T = \<lparr>tasks = T, filter_mode = js ''all'', search = [], input = [],
     editingId = None, editInput = []\<rparr>"

section \<open>Handlers\<close>

text \<open>
  Each handler is a function from the state it reads to the state after its \<open>set...\<close>
  calls. \<open>handleAddTask\<close> takes the reading of \<open>Date.now()\<close> as an argument.
\<close>

definition handleAddTask :: "int \<Rightarrow> app \<Rightarrow> app" where
  "handleAddTask now a =
     (if length (trim (input a)) = 0 then a
      else a\<lparr>tasks := tasks a @ [\<lparr>task_id = now, task_text = trim (input a), completed = False\<rparr>],
             input := []\<rparr>)"

definition handleEditTask :: "int \<Rightarrow> app \<Rightarrow> app" where
  "handleEditTask i a =
     a\<lparr>editingId := Some i,
       editInput := (case find (\<lambda>t. task_id t = i) (tasks a) of
                       Some t \<Rightarrow> task_text t | None \<Rightarrow> [])\<rparr>"

definition handleUpdateTask :: "app \<Rightarrow> app" where
  "handleUpdateTask a =
     (if length (trim (editInput a)) = 0 then a\<lparr>editingId := None, editInput := []\<rparr>
      else a\<lparr>tasks := map (\<lambda>t. if Some (task_id t) = editingId a
                                then t\<lparr>task_text := trim (editInput a)\<rparr> else t) (tasks a),
             editingId := None, editInput := []\<rparr>)"

definition handleDeleteTask :: "int \<Rightarrow> app \<Rightarrow> app" where
  "handleDeleteTask i a =
     (let a' = a\<lparr>tasks := filter (\<lambda>t. task_id t \<noteq> i) (tasks a)\<rparr>
      in if editingId a = Some i then a'\<lparr>editingId := None, editInput := []\<rparr> else a')"

definition handleToggleComplete :: "int \<Rightarrow> app \<Rightarrow> app" where
  "handleToggleComplete i a =
     a\<lparr>tasks := map (\<lambda>t. if task_id t = i then t\<lparr>completed := \<not> completed t\<rparr> else t) (tasks a)\<rparr>"

definition handleFilterChange :: "jsstring \<Rightarrow> app \<Rightarrow> app" where
  "handleFilterChange newFilter a = a\<lparr>filter_mode := newFilter\<rparr>"

definition handleSearchChange :: "jsstring \<Rightarrow> app \<Rightarrow> app" where
  "handleSearchChange v a = a\<lparr>search := v\<rparr>"


text \<open>
  Lines 124-134: while \<open>editingId\<close> is truthy (neither \<open>null\<close> nor \<open>0\<close>) a key
  listener is installed; on Escape it leaves the edit.
\<close>

definition handleKey :: "app \<Rightarrow> app" where
  "handleKey a =
     (if editingId a \<noteq> None \<and> editingId a \<noteq> Some 0
      then a\<lparr>editingId := None, editInput := []\<rparr> else a)"

text \<open>
  Lines 111-121. \<open>toLowerCase\<close> is the Unicode lower-case mapping of the runtime; it is
  the parameter \<open>lower\<close>.
\<close>

definition filteredTasks :: "(jsstring \<Rightarrow> jsstring) \<Rightarrow> app \<Rightarrow> task list" where
  "filteredTasks lower a =
     (let list = tasks a;
          list = (if filter_mode a = js ''active'' then filter (\<lambda>t. \<not> completed t) list else list);
          list = (if filter_mode a = js ''completed'' then filter (\<lambda>t. completed t) list else list);
          list = (if length (trim (search a)) > 0
                  then filter (\<lambda>t. includes_js (lower (task_text t)) (lower (trim (search a)))) list
                  else list)
      in list)"

text \<open>Lower-casing of the letters A to Z, every other code unit kept: a lower-case
  mapping to run \<open>filteredTasks\<close> with on Basic Latin text.\<close>

definition ascii_lower :: "jsstring \<Rightarrow> jsstring" where
  "ascii_lower s = map (\<lambda>c. if 0x41 \<le> c \<and> c \<le> 0x5A then c + 0x20 else c) s"

section \<open>Events\<close>

text \<open>
  What the user can do to the mounted component. \<open>InputChange\<close> and
  \<open>EditInputChange\<close> are the \<open>onChange\<close> of the two task inputs (lines 155 and 250),
  \<open>AddTask\<close> is the submit of the add form, with the reading of the clock,
  \<open>UpdateTask\<close> the submit of the edit form; the others are the buttons, the search box
  and the Escape key.
\<close>

datatype event =
    InputChange jsstring | AddTask int | EditTask int | EditInputChange jsstring | UpdateTask
  | DeleteTask int | ToggleComplete int | FilterChange jsstring | SearchChange jsstring
  | EscapeKey

fun handle :: "event \<Rightarrow> app \<Rightarrow> app" where
  "handle (InputChange v) a = a\<lparr>input := v\<rparr>"
| "handle (AddTask now) a = handleAddTask now a"
| "handle (EditTask i) a = handleEditTask i a"
| "handle (EditInputChange v) a = a\<lparr>editInput := v\<rparr>"
| "handle UpdateTask a = handleUpdateTask a"
| "handle (DeleteTask i) a = handleDeleteTask i a"
| "handle (ToggleComplete i) a = handleToggleComplete i a"
| "handle (FilterChange f) a = handleFilterChange f a"
| "handle (SearchChange v) a = handleSearchChange v a"
| "handle EscapeKey a = handleKey a"

text \<open>
  What the markup lets through: the task inputs have \<open>maxLength={120}\<close> (lines 153 and
  249), the search box \<open>maxLength={60}\<close> (line 204), and the filter buttons pass one of
  three literals (lines 173, 181, 189). Buttons of tasks are taken to exist for every id:
  more events than the page offers, never fewer.
\<close>

fun enabled :: "app \<Rightarrow> event \<Rightarrow> bool" where
  "enabled a (InputChange v) = (length v \<le> 120)"
| "enabled a (EditInputChange v) = (length v \<le> 120)"
| "enabled a (SearchChange v) = (length v \<le> 60)"
| "enabled a (FilterChange f) = (f = js ''all'' \<or> f = js ''active'' \<or> f = js ''completed'')"
| "enabled a (AddTask now) = True"
| "enabled a (EditTask i) = True"
| "enabled a UpdateTask = True"
| "enabled a (DeleteTask i) = True"
| "enabled a (ToggleComplete i) = True"
| "enabled a EscapeKey = True"

fun run :: "event list \<Rightarrow> app \<Rightarrow> app" where
  "run [] a = a"
| "run (e # es) a = run es (handle e a)"

fun all_enabled :: "app \<Rightarrow> event list \<Rightarrow> bool" where
  "all_enabled a [] = True"
| "all_enabled a (e # es) = (enabled a e \<and> all_enabled (handle e a) es)"

text \<open>The clock reading of an \<open>AddTask\<close> is not the id of a stored task.\<close>

fun fresh_reading :: "app \<Rightarrow> event \<Rightarrow> bool" where
  "fresh_reading a (AddTask now) = (now \<notin> set (map task_id (tasks a)))"
| "fresh_reading a (InputChange v) = True"
| "fresh_reading a (EditTask i) = True"
| "fresh_reading a (EditInputChange v) = True"
| "fresh_reading a UpdateTask = True"
| "fresh_reading a (DeleteTask i) = True"
| "fresh_reading a (ToggleComplete i) = True"
| "fresh_reading a (FilterChange f) = True"
| "fresh_reading a (SearchChange v) = True"
| "fresh_reading a EscapeKey = True"

fun fresh_clock :: "app \<Rightarrow> event list \<Rightarrow> bool" where
  "fresh_clock a [] = True"
| "fresh_clock a (e # es) = (fresh_reading a e \<and> fresh_clock (handle e a) es)"

section \<open>JSON.parse\<close>

text \<open>
  The values JSON text denotes. A number is the exact value of its decimal literal (the
  rounding of \<open>JSON.parse\<close> to a double is not modelled; on integers of magnitude up to
  \<open>2^53\<close> there is none). The members of an object are kept in the order of their first
  occurrence.
\<close>

datatype json = JNull | JBool bool | JNum rat | JStr jsstring | JArr "json list"
  | JObj "(jsstring \<times> json) list"

text \<open>A step of the parser gives a value and the text left, or rejects the text, or has
  used up its fuel.\<close>

datatype 'a presult = Parsed 'a jsstring | Malformed | Exhausted

text \<open>JSON white space: space, TAB, LF, CR.\<close>

definition is_json_ws :: "16 word \<Rightarrow> bool" where
  "is_json_ws c = (c = 0x20 \<or> c = 0x09 \<or> c = 0x0A \<or> c = 0x0D)"

definition skip_ws :: "jsstring \<Rightarrow> jsstring" where
  "skip_ws s = dropWhile is_json_ws s"

definition is_digit :: "16 word \<Rightarrow> bool" where
  "is_digit c = (0x30 \<le> c \<and> c \<le> 0x39)"

definition digits_val :: "jsstring \<Rightarrow> nat" where
  "digits_val ds = foldl (\<lambda>n c. 10 * n + (unat c - 0x30)) 0 ds"

definition hex_val :: "16 word \<Rightarrow> nat option" where
  "hex_val c =
     (if 0x30 \<le> c \<and> c \<le> 0x39 then Some (unat c - 0x30)
      else if 0x41 \<le> c \<and> c \<le> 0x46 then Some (unat c - 0x41 + 10)
      else if 0x61 \<le> c \<and> c \<le> 0x66 then Some (unat c - 0x61 + 10)
      else None)"

definition unescape :: "16 word \<Rightarrow> 16 word option" where
  "unescape e =
     (if e = 0x22 then Some 0x22
      else if e = 0x5C then Some 0x5C
      else if e = 0x2F then Some 0x2F
      else if e = 0x62 then Some 0x08
      else if e = 0x66 then Some 0x0C
      else if e = 0x6E then Some 0x0A
      else if e = 0x72 then Some 0x0D
      else if e = 0x74 then Some 0x09
      else None)"

definition hex4 :: "16 word \<Rightarrow> 16 word \<Rightarrow> 16 word \<Rightarrow> 16 word \<Rightarrow> 16 word option" where
  "hex4 h1 h2 h3 h4 =
     (case (hex_val h1, hex_val h2, hex_val h3, hex_val h4) of
        (Some a, Some b, Some c, Some d) \<Rightarrow> Some (of_nat (((a * 16 + b) * 16 + c) * 16 + d))
      | _ \<Rightarrow> None)"

text \<open>
  The characters of a string after its opening quote, up to the closing quote: any code
  unit but the quote, the backslash and the controls below U+0020, or an escape.
\<close>

definition consumed :: "16 word \<Rightarrow> (jsstring \<times> jsstring) option \<Rightarrow> (jsstring \<times> jsstring) option" where
  "consumed u p = (case p of None \<Rightarrow> None | Some (str, rest) \<Rightarrow> Some (u # str, rest))"

fun parse_chars :: "jsstring \<Rightarrow> (jsstring \<times> jsstring) option" where
  "parse_chars [] = None"
| "parse_chars (c # r) =
     (if c = 0x22 then Some ([], r)
      else if c = 0x5C then
        (case r of
           [] \<Rightarrow> None
         | e # r' \<Rightarrow>
             if e = 0x75 then
               (case r' of
                  h1 # h2 # h3 # h4 # r'' \<Rightarrow>
                    (case hex4 h1 h2 h3 h4 of
                       None \<Rightarrow> None
                     | Some u \<Rightarrow> consumed u (parse_chars r''))
                | _ \<Rightarrow> None)
             else
               (case unescape e of
                  None \<Rightarrow> None
                | Some u \<Rightarrow> consumed u (parse_chars r')))
      else if c < 0x20 then None
      else consumed c (parse_chars r))"

text \<open>
  A number: an optional minus, \<open>0\<close> or a digit from 1 to 9 followed by digits, an
  optional fraction, an optional exponent.
\<close>

definition parse_frac :: "jsstring \<Rightarrow> (jsstring \<times> jsstring) option" where
  "parse_frac s =
     (case s of
        [] \<Rightarrow> Some ([], s)
      | c # r \<Rightarrow>
          if c = 0x2E then
            (if takeWhile is_digit r = [] then None
             else Some (takeWhile is_digit r, dropWhile is_digit r))
          else Some ([], s))"

definition parse_exp :: "jsstring \<Rightarrow> (int \<times> jsstring) option" where
  "parse_exp s =
     (case s of
        [] \<Rightarrow> Some (0, s)
      | c # r \<Rightarrow>
          if c = 0x65 \<or> c = 0x45 then
            (let neg = (take 1 r = [0x2D]);
                 r1 = (if take 1 r = [0x2D] \<or> take 1 r = [0x2B] then drop 1 r else r)
             in if takeWhile is_digit r1 = [] then None
                else Some ((if neg then - int (digits_val (takeWhile is_digit r1))
                            else int (digits_val (takeWhile is_digit r1))),
                           dropWhile is_digit r1))
          else Some (0, s))"

definition scale10 :: "rat \<Rightarrow> int \<Rightarrow> rat" where
  "scale10 q e = (if 0 \<le> e then q * 10 ^ nat e else q / 10 ^ nat (- e))"

definition parse_unsigned :: "jsstring \<Rightarrow> (rat \<times> jsstring) option" where
  "parse_unsigned s =
     (case s of
        [] \<Rightarrow> None
      | c # r \<Rightarrow>
          if \<not> is_digit c then None
          else
            (let ip = (if c = 0x30 then [c] else takeWhile is_digit s);
                 s2 = (if c = 0x30 then r else dropWhile is_digit s)
             in case parse_frac s2 of
                  None \<Rightarrow> None
                | Some (fd, s3) \<Rightarrow>
                    (case parse_exp s3 of
                       None \<Rightarrow> None
                     | Some (e, s4) \<Rightarrow>
                         Some (scale10 (of_nat (digits_val ip)
                                         + of_nat (digits_val fd) / 10 ^ length fd) e, s4))))"

definition parse_number :: "jsstring \<Rightarrow> (rat \<times> jsstring) option" where
  "parse_number s =
     (if take 1 s = [0x2D]
      then (case parse_unsigned (drop 1 s) of
              None \<Rightarrow> None
            | Some (q, r) \<Rightarrow> Some (- q, r))
      else parse_unsigned s)"

text \<open>
  Values, the elements of an array after \<open>[\<close>, and the members of an object after
  \<open>{\<close>. The first argument is fuel: every call uses one unit. A key met again replaces
  the value it had.
\<close>

fun parse_value :: "nat \<Rightarrow> jsstring \<Rightarrow> json presult"
  and parse_elements :: "nat \<Rightarrow> json list \<Rightarrow> jsstring \<Rightarrow> json presult"
  and parse_members :: "nat \<Rightarrow> (jsstring \<times> json) list \<Rightarrow> jsstring \<Rightarrow> json presult"
where
  "parse_value 0 s = Exhausted"
| "parse_value (Suc n) s =
     (case skip_ws s of
        [] \<Rightarrow> Malformed
      | c # r \<Rightarrow>
          if c = 0x7B then
            (case skip_ws r of
               [] \<Rightarrow> Malformed
             | d # r' \<Rightarrow> if d = 0x7D then Parsed (JObj []) r' else parse_members n [] r)
          else if c = 0x5B then
            (case skip_ws r of
               [] \<Rightarrow> Malformed
             | d # r' \<Rightarrow> if d = 0x5D then Parsed (JArr []) r' else parse_elements n [] r)
          else if c = 0x22 then
            (case parse_chars r of
               None \<Rightarrow> Malformed
             | Some (str, r') \<Rightarrow> Parsed (JStr str) r')
          else if take 4 (c # r) = js ''true'' then Parsed (JBool True) (drop 4 (c # r))
          else if take 5 (c # r) = js ''false'' then Parsed (JBool False) (drop 5 (c # r))
          else if take 4 (c # r) = js ''null'' then Parsed JNull (drop 4 (c # r))
          else
            (case parse_number (c # r) of
               None \<Rightarrow> Malformed
             | Some (q, r') \<Rightarrow> Parsed (JNum q) r'))"
| "parse_elements 0 acc s = Exhausted"
| "parse_elements (Suc n) acc s =
     (case parse_value n s of
        Parsed v r \<Rightarrow>
          (case skip_ws r of
             [] \<Rightarrow> Malformed
           | c # r' \<Rightarrow>
               if c = 0x2C then parse_elements n (v # acc) r'
               else if c = 0x5D then Parsed (JArr (rev (v # acc))) r'
               else Malformed)
      | Malformed \<Rightarrow> Malformed
      | Exhausted \<Rightarrow> Exhausted)"
| "parse_members 0 acc s = Exhausted"
| "parse_members (Suc n) acc s =
     (case skip_ws s of
        [] \<Rightarrow> Malformed
      | c # r \<Rightarrow>
          if c \<noteq> 0x22 then Malformed
          else
            (case parse_chars r of
               None \<Rightarrow> Malformed
             | Some (k, r1) \<Rightarrow>
                 (case skip_ws r1 of
                    [] \<Rightarrow> Malformed
                  | d # r2 \<Rightarrow>
                      if d \<noteq> 0x3A then Malformed
                      else
                        (case parse_value n r2 of
                           Parsed v r3 \<Rightarrow>
                             (case skip_ws r3 of
                                [] \<Rightarrow> Malformed
                              | e # r4 \<Rightarrow>
                                  if e = 0x2C then parse_members n (AList.update k v acc) r4
                                  else if e = 0x7D then Parsed (JObj (AList.update k v acc)) r4
                                  else Malformed)
                         | Malformed \<Rightarrow> Malformed
                         | Exhausted \<Rightarrow> Exhausted))))"

text \<open>
  \<open>JSON.parse\<close> throws a \<open>SyntaxError\<close> on text that is not JSON. \<open>FuelExhausted\<close>
  is the parser of this theory running out of fuel (lemma \<open>JSON_parse_total\<close>: with the
  fuel given here it never does). \<open>Untyped\<close> is for a parsed value that is not an array
  of task objects: \<open>setTasks\<close> stores it all the same, and the typed state of this theory
  has no counterpart for it.
\<close>

datatype failure = SyntaxError | FuelExhausted | Untyped json

definition JSON_parse :: "jsstring \<Rightarrow> failure + json" where
  "JSON_parse s =
     (case parse_value (Suc (length s + length s)) s of
        Parsed v r \<Rightarrow> if skip_ws r = [] then Inr v else Inl SyntaxError
      | Malformed \<Rightarrow> Inl SyntaxError
      | Exhausted \<Rightarrow> Inl FuelExhausted)"

section \<open>JSON.stringify\<close>

text \<open>
  \<open>QuoteJSONString\<close> of ECMAScript: the short escapes, \<open>\uXXXX\<close> (lower-case hex) for
  the other controls and for a surrogate that is not half of a pair, every other code
  unit as it is.
\<close>

definition hex_digit :: "nat \<Rightarrow> 16 word" where
  "hex_digit d = (if d < 10 then 0x30 + of_nat d else 0x61 + of_nat (d - 10))"

definition unicode_escape :: "16 word \<Rightarrow> jsstring" where
  "unicode_escape c =
     [0x5C, 0x75, hex_digit (unat c div 4096), hex_digit (unat c div 256 mod 16),
      hex_digit (unat c div 16 mod 16), hex_digit (unat c mod 16)]"

definition is_lead :: "16 word \<Rightarrow> bool" where
  "is_lead c = (0xD800 \<le> c \<and> c \<le> 0xDBFF)"

definition is_trail :: "16 word \<Rightarrow> bool" where
  "is_trail c = (0xDC00 \<le> c \<and> c \<le> 0xDFFF)"

definition quote_unit :: "16 word \<Rightarrow> jsstring" where
  "quote_unit c =
     (if c = 0x08 then [0x5C, 0x62]
      else if c = 0x09 then [0x5C, 0x74]
      else if c = 0x0A then [0x5C, 0x6E]
      else if c = 0x0C then [0x5C, 0x66]
      else if c = 0x0D then [0x5C, 0x72]
      else if c = 0x22 then [0x5C, 0x22]
      else if c = 0x5C then [0x5C, 0x5C]
      else if c < 0x20 \<or> is_lead c \<or> is_trail c then unicode_escape c
      else [c])"

fun quote_chars :: "jsstring \<Rightarrow> jsstring" where
  "quote_chars (c # d # r) =
     (if is_lead c \<and> is_trail d then c # d # quote_chars r
      else quote_unit c @ quote_chars (d # r))"
| "quote_chars [c] = quote_unit c"
| "quote_chars [] = []"

definition QuoteJSONString :: "jsstring \<Rightarrow> jsstring" where
  "QuoteJSONString s = 0x22 # quote_chars s @ [0x22]"

text \<open>
  \<open>Number::toString\<close> on an integral Number of magnitude below \<open>10^21\<close>: the decimal
  digits, after a minus sign when negative.
\<close>

fun digits :: "nat \<Rightarrow> jsstring" where
  "digits n = (if n < 10 then [0x30 + of_nat n] else digits (n div 10) @ [0x30 + of_nat (n mod 10)])"

declare digits.simps [simp del]

definition number_to_string :: "int \<Rightarrow> jsstring" where
  "number_to_string i = (if i < 0 then 0x2D # digits (nat (- i)) else digits (nat i))"

text \<open>
  \<open>JSON.stringify(tasks)\<close> for a collection of tasks: the array of the objects, each
  with its members \<open>id\<close>, \<open>text\<close>, \<open>completed\<close> in the order \<open>handleAddTask\<close> creates
  them, no white space.
\<close>

fun join_comma :: "jsstring list \<Rightarrow> jsstring" where
  "join_comma [] = []"
| "join_comma [x] = x"
| "join_comma (x # y # r) = x @ 0x2C # join_comma (y # r)"

definition stringify_task :: "task \<Rightarrow> jsstring" where
  "stringify_task t =
     0x7B # join_comma
       [QuoteJSONString (js ''id'') @ 0x3A # number_to_string (task_id t),
        QuoteJSONString (js ''text'') @ 0x3A # QuoteJSONString (task_text t),
        QuoteJSONString (js ''completed'') @ 0x3A # (if completed t then js ''true'' else js ''false'')]
     @ [0x7D]"

definition JSON_stringify :: "task list \<Rightarrow> jsstring" where
  "JSON_stringify T = 0x5B # join_comma (map stringify_task T) @ [0x5D]"

text \<open>The collection as a value of JavaScript.\<close>

definition json_of_task :: "task \<Rightarrow> json" where
  "json_of_task t =
     JObj [(js ''id'', JNum (of_int (task_id t))), (js ''text'', JStr (task_text t)),
           (js ''completed'', JBool (completed t))]"

definition json_of_tasks :: "task list \<Rightarrow> json" where
  "json_of_tasks T = JArr (map json_of_task T)"

section \<open>The durable store\<close>

text \<open>\<open>window.localStorage\<close>: \<open>getItem\<close> gives \<open>null\<close> for a key never set.\<close>

type_synonym storage = "jsstring \<rightharpoonup> jsstring"

definition getItem :: "storage \<Rightarrow> jsstring \<Rightarrow> jsstring option" where
  "getItem st k = st k"

definition setItem :: "storage \<Rightarrow> jsstring \<Rightarrow> jsstring \<Rightarrow> storage" where
  "setItem st k v = st(k \<mapsto> v)"

text \<open>
  Lines 37-40. \<open>if (stored)\<close> is false for \<open>null\<close> and for the empty string; then
  \<open>tasks\<close> keeps its initial value \<open>[]\<close>. Otherwise \<open>tasks\<close> becomes what
  \<open>JSON.parse(stored)\<close> returns, and an exception of \<open>JSON.parse\<close> leaves the effect.
\<close>

definition load :: "storage \<Rightarrow> failure + json" where
  "load st =
     (case getItem st (js ''todo_tasks'') of
        None \<Rightarrow> Inr (JArr [])
      | Some stored \<Rightarrow> if stored = [] then Inr (JArr []) else JSON_parse stored)"

text \<open>Lines 43-45.\<close>

definition persist :: "task list \<Rightarrow> storage \<Rightarrow> storage" where
  "persist T st = setItem st (js ''todo_tasks'') (JSON_stringify T)"

text \<open>Reading a value of JavaScript as a collection of tasks (lines 19-22).\<close>

fun task_of_json :: "json \<Rightarrow> task option" where
  "task_of_json (JObj [(k1, JNum q), (k2, JStr s), (k3, JBool b)]) =
     (if k1 = js ''id'' \<and> k2 = js ''text'' \<and> k3 = js ''completed'' \<and> of_int \<lfloor>q\<rfloor> = q
      then Some \<lparr>task_id = \<lfloor>q\<rfloor>, task_text = s, completed = b\<rparr>
      else None)"
| "task_of_json v = None"

fun tasks_of_json :: "json \<Rightarrow> task list option" where
  "tasks_of_json (JArr vs) = those (map task_of_json vs)"
| "tasks_of_json v = None"

text \<open>The state of the component once its mount effects have run.\<close>

definition mount :: "storage \<Rightarrow> failure + app" where
  "mount st =
     (case load st of
        Inl e \<Rightarrow> Inl e
      | Inr v \<Rightarrow> (case tasks_of_json v of
                    None \<Rightarrow> Inl (Untyped v)
                  | Some T \<Rightarrow> Inr (initial T)))"

section \<open>The properties of a collection\<close>

text \<open>A text is not empty, neither starts nor ends with white space, and has at most
  120 code units.\<close>

definition text_ok :: "jsstring \<Rightarrow> bool" where
  "text_ok s = (s \<noteq> [] \<and> \<not> is_white_space (hd s) \<and> \<not> is_white_space (last s)
                \<and> length s \<le> 120)"

definition texts_ok :: "task list \<Rightarrow> bool" where
  "texts_ok T = list_all (\<lambda>t. text_ok (task_text t)) T"

text \<open>What holds of a state along a run: the texts are fine and the two task inputs hold
  at most 120 code units.\<close>

definition state_ok :: "app \<Rightarrow> bool" where
  "state_ok a = (texts_ok (tasks a) \<and> length (input a) \<le> 120 \<and> length (editInput a) \<le> 120)"

text \<open>\<open>Number.isSafeInteger\<close>: the integers a Number holds exactly, with their
  neighbours. Every reading of \<open>Date.now()\<close> is one.\<close>

definition safe_integer :: "int \<Rightarrow> bool" where
  "safe_integer i = (\<bar>i\<bar> \<le> 2 ^ 53 - 1)"

section \<open>Trimming\<close>

lemma trim_empty_iff: "trim s = [] \<longleftrightarrow> (\<forall>c\<in>set s. is_white_space c)"
proof
  assume "trim s = []"
  hence a: "\<forall>x\<in>set (dropWhile is_white_space s). is_white_space x"
    by (simp add: trim_def)
  have "dropWhile is_white_space s = []"
  proof (rule ccontr)
    assume n: "dropWhile is_white_space s \<noteq> []"
    hence "\<not> is_white_space (hd (dropWhile is_white_space s))" by (rule hd_dropWhile)
    moreover have "hd (dropWhile is_white_space s) \<in> set (dropWhile is_white_space s)"
      using n by simp
    ultimately show False using a by blast
  qed
  thus "\<forall>c\<in>set s. is_white_space c" by simp
next
  assume "\<forall>c\<in>set s. is_white_space c"
  hence e: "dropWhile is_white_space s = []" by simp
  show "trim s = []" unfolding trim_def e by (simp only: rev.simps dropWhile.simps)
qed

lemma trim_hd: "trim s \<noteq> [] \<Longrightarrow> \<not> is_white_space (hd (trim s))"
proof -
  assume ne: "trim s \<noteq> []"
  let ?d = "dropWhile is_white_space s"
  have r: "dropWhile is_white_space (rev ?d) \<noteq> []" using ne by (simp add: trim_def)
  have d: "?d \<noteq> []"
  proof
    assume "?d = []"
    hence "dropWhile is_white_space (rev ?d) = []" by (simp only: rev.simps dropWhile.simps)
    thus False using r by simp
  qed
  have "\<not> is_white_space (hd ?d)" using d by (rule hd_dropWhile)
  moreover have "hd (trim s) = hd ?d"
  proof -
    define ys where "ys = dropWhile is_white_space (rev ?d)"
    have "rev ?d = takeWhile is_white_space (rev ?d) @ ys"
      by (simp add: ys_def)
    hence "rev (rev ?d) = rev (takeWhile is_white_space (rev ?d) @ ys)" by simp
    hence "?d = rev ys @ rev (takeWhile is_white_space (rev ?d))"
      by (simp only: rev_rev_ident rev_append)
    moreover have "rev ys \<noteq> []" using r ys_def by simp
    ultimately have "hd ?d = hd (rev ys)" by (metis hd_append2)
    thus ?thesis by (simp add: trim_def ys_def)
  qed
  ultimately show ?thesis by simp
qed

lemma trim_last: "trim s \<noteq> [] \<Longrightarrow> \<not> is_white_space (last (trim s))"
proof -
  assume ne: "trim s \<noteq> []"
  let ?r = "dropWhile is_white_space (rev (dropWhile is_white_space s))"
  have "?r \<noteq> []" using ne by (simp add: trim_def)
  hence "\<not> is_white_space (hd ?r)" by (rule hd_dropWhile)
  moreover have "last (trim s) = hd ?r" using \<open>?r \<noteq> []\<close>
    by (simp add: trim_def last_rev)
  ultimately show ?thesis by simp
qed

lemma trim_length: "length (trim s) \<le> length s"
proof -
  have "length (trim s) \<le> length (rev (dropWhile is_white_space s))"
    unfolding trim_def length_rev [of "dropWhile is_white_space (rev (dropWhile is_white_space s))"]
    by (rule length_dropWhile_le)
  also have "\<dots> \<le> length s" by (simp add: length_dropWhile_le)
  finally show ?thesis .
qed

section \<open>Creating a task\<close>

text \<open>
  C3. Submitting the add form with input \<open>s\<close> whose trimmed form is not empty gives a
  collection one longer, whose first elements are the old collection and whose last
  element is a task with the trimmed text, not completed, the clock reading as id. The
  trimmed text neither starts nor ends with white space. (The bound of 120 on the
  length is not needed.)
\<close>

theorem handleAddTask_appends:
  assumes "trim s \<noteq> []"
  shows "let T = tasks a; T' = tasks (handleAddTask now (a\<lparr>input := s\<rparr>))
         in length T' = length T + 1 \<and> take (length T) T' = T
            \<and> task_text (last T') = trim s \<and> completed (last T') = False
            \<and> task_id (last T') = now
            \<and> \<not> is_white_space (hd (trim s)) \<and> \<not> is_white_space (last (trim s))"
  using assms by (simp add: handleAddTask_def Let_def trim_hd trim_last)

theorem handleAddTask_appends_witness:
  "trim (js ''  Call mom '') \<noteq> []
   \<and> tasks (handleAddTask 1000 ((initial [])\<lparr>input := js ''  Call mom ''\<rparr>))
       = [\<lparr>task_id = 1000, task_text = js ''Call mom'', completed = False\<rparr>]"
proof -
  have t: "trim (js ''  Call mom '') = js ''Call mom''" by code_simp
  have ne: "trim (js ''  Call mom '') \<noteq> []" unfolding t by (simp add: js_def)
  from handleAddTask_appends [OF ne, of "initial []" 1000]
  show ?thesis using ne by (simp add: Let_def initial_def handleAddTask_def t)
qed

text \<open>
  C4. When the input is empty or consists of white space only, submitting the add form
  changes nothing, and submitting the edit form (whatever task is being edited) leaves
  the collection, hence every task's text, as it was: the edit is cancelled.
\<close>

theorem blank_input_is_noop:
  assumes "\<forall>c\<in>set s. is_white_space c"
  shows "handleAddTask now (a\<lparr>input := s\<rparr>) = a\<lparr>input := s\<rparr>
         \<and> tasks (handleAddTask now (a\<lparr>input := s\<rparr>)) = tasks a
         \<and> tasks (handleUpdateTask (a\<lparr>editingId := e, editInput := s\<rparr>)) = tasks a
         \<and> map task_text (tasks (handleUpdateTask (a\<lparr>editingId := e, editInput := s\<rparr>)))
             = map task_text (tasks a)"
proof -
  have "trim s = []" using assms by (simp add: trim_empty_iff)
  thus ?thesis by (simp add: handleAddTask_def handleUpdateTask_def)
qed

theorem blank_input_is_noop_witness:
  "trim (js ''  '') = []
   \<and> tasks (handleAddTask 7 ((initial [])\<lparr>input := js ''  ''\<rparr>)) = []
   \<and> tasks (handleUpdateTask
        ((initial [\<lparr>task_id = 1, task_text = js ''Buy milk'', completed = False\<rparr>])
           \<lparr>editingId := Some 1, editInput := []\<rparr>))
      = [\<lparr>task_id = 1, task_text = js ''Buy milk'', completed = False\<rparr>]"
proof -
  have w: "\<forall>c\<in>set (js ''  ''). is_white_space c"
    by (simp add: js_def is_white_space_def white_space_units_def)
  have e: "\<forall>c\<in>set ([] :: jsstring). is_white_space c" by simp
  from blank_input_is_noop [OF w, of 7 "initial []"]
    blank_input_is_noop [OF e, of _ "initial [\<lparr>task_id = 1, task_text = js ''Buy milk'', completed = False\<rparr>]" "Some 1"]
  show ?thesis using w by (simp add: initial_def trim_empty_iff)
qed

section \<open>Renaming a task\<close>

text \<open>
  C8. Submitting the edit form for id \<open>i\<close> with input \<open>s\<close> whose trimmed form is not
  empty: size and order of the collection stay; a task with id \<open>i\<close> gets the trimmed
  text and keeps id and completed; every other task is unchanged; when no task has id
  \<open>i\<close> the collection is unchanged.
\<close>

theorem handleUpdateTask_frame:
  assumes "trim s \<noteq> []"
  shows "let T = tasks a; T' = tasks (handleUpdateTask (a\<lparr>editingId := Some i, editInput := s\<rparr>))
         in length T' = length T
            \<and> (\<forall>k<length T.
                  (task_id (T ! k) = i \<longrightarrow>
                     task_text (T' ! k) = trim s \<and> task_id (T' ! k) = task_id (T ! k)
                     \<and> completed (T' ! k) = completed (T ! k))
                  \<and> (task_id (T ! k) \<noteq> i \<longrightarrow> T' ! k = T ! k))
            \<and> (i \<notin> task_id ` set T \<longrightarrow> T' = T)"
proof -
  have "i \<notin> task_id ` set T \<Longrightarrow>
        map (\<lambda>t. if task_id t = i then t\<lparr>task_text := x\<rparr> else t) T = T"
    for T :: "task list" and x
    by (rule map_idI) auto
  thus ?thesis using assms by (simp add: handleUpdateTask_def Let_def)
qed

theorem handleUpdateTask_frame_witness:
  "trim (js '' Buy oat milk '') \<noteq> []
   \<and> tasks (handleUpdateTask
        ((initial [\<lparr>task_id = 1, task_text = js ''Buy milk'', completed = False\<rparr>,
                   \<lparr>task_id = 2, task_text = js ''Write report'', completed = True\<rparr>])
           \<lparr>editingId := Some 1, editInput := js '' Buy oat milk ''\<rparr>))
      = [\<lparr>task_id = 1, task_text = js ''Buy oat milk'', completed = False\<rparr>,
         \<lparr>task_id = 2, task_text = js ''Write report'', completed = True\<rparr>]
   \<and> tasks (handleUpdateTask
        ((initial [\<lparr>task_id = 1, task_text = js ''Buy milk'', completed = False\<rparr>,
                   \<lparr>task_id = 2, task_text = js ''Write report'', completed = True\<rparr>])
           \<lparr>editingId := Some 3, editInput := js '' Buy oat milk ''\<rparr>))
      = [\<lparr>task_id = 1, task_text = js ''Buy milk'', completed = False\<rparr>,
         \<lparr>task_id = 2, task_text = js ''Write report'', completed = True\<rparr>]"
proof -
  have t: "trim (js '' Buy oat milk '') = js ''Buy oat milk''" by code_simp
  have ne: "trim (js '' Buy oat milk '') \<noteq> []" unfolding t by (simp add: js_def)
  let ?a = "initial [\<lparr>task_id = 1, task_text = js ''Buy milk'', completed = False\<rparr>,
                     \<lparr>task_id = 2, task_text = js ''Write report'', completed = True\<rparr>]"
  from handleUpdateTask_frame [OF ne, of ?a 1] handleUpdateTask_frame [OF ne, of ?a 3]
  show ?thesis using ne by (simp add: Let_def initial_def handleUpdateTask_def t)
qed

section \<open>Toggling completion\<close>

text \<open>
  C9. Toggling the same id twice in succession gives back the state it started from:
  the targeted task has its original completed value and nothing else has changed.
\<close>

theorem handleToggleComplete_twice:
  "handleToggleComplete i (handleToggleComplete i a) = a"
proof -
  have "(\<lambda>t::task. if task_id t = i then t\<lparr>completed := \<not> completed t\<rparr> else t)
        \<circ> (\<lambda>t. if task_id t = i then t\<lparr>completed := \<not> completed t\<rparr> else t) = (\<lambda>t. t)"
    by (rule ext) simp
  thus ?thesis by (simp add: handleToggleComplete_def)
qed

section \<open>Several tasks with one id\<close>

text \<open>
  C10. The operations that take an id act on every task with that id: renaming sets the
  text of each of them, toggling flips completed on each of them, deleting removes each
  of them and keeps the others in order.
\<close>

theorem id_operations_hit_every_match:
  "let T = tasks a;
       R = tasks (handleUpdateTask (a\<lparr>editingId := Some i, editInput := s\<rparr>));
       G = tasks (handleToggleComplete i a);
       D = tasks (handleDeleteTask i a)
   in (trim s \<noteq> [] \<longrightarrow>
         length R = length T \<and> (\<forall>k<length T. task_id (T ! k) = i \<longrightarrow> task_text (R ! k) = trim s))
      \<and> length G = length T
      \<and> (\<forall>k<length T. task_id (T ! k) = i \<longrightarrow> completed (G ! k) = (\<not> completed (T ! k)))
      \<and> D = filter (\<lambda>t. task_id t \<noteq> i) T
      \<and> (\<forall>t\<in>set D. task_id t \<noteq> i)
      \<and> length D + length (filter (\<lambda>t. task_id t = i) T) = length T"
proof -
  have "length (filter (\<lambda>t. task_id t \<noteq> i) T) + length (filter (\<lambda>t. task_id t = i) T) = length T"
    for T :: "task list"
    using sum_length_filter_compl [of "\<lambda>t. task_id t \<noteq> i" T] by simp
  thus ?thesis
    by (simp add: Let_def handleUpdateTask_def handleToggleComplete_def handleDeleteTask_def)
qed

theorem id_operations_hit_every_match_witness:
  "(let T = [\<lparr>task_id = 5, task_text = js ''a'', completed = False\<rparr>,
            \<lparr>task_id = 6, task_text = js ''b'', completed = False\<rparr>,
            \<lparr>task_id = 5, task_text = js ''c'', completed = True\<rparr>]
    in trim (js ''x'') \<noteq> []
       \<and> tasks (handleUpdateTask ((initial T)\<lparr>editingId := Some 5, editInput := js ''x''\<rparr>))
          = [\<lparr>task_id = 5, task_text = js ''x'', completed = False\<rparr>,
             \<lparr>task_id = 6, task_text = js ''b'', completed = False\<rparr>,
             \<lparr>task_id = 5, task_text = js ''x'', completed = True\<rparr>]
       \<and> tasks (handleToggleComplete 5 (initial T))
          = [\<lparr>task_id = 5, task_text = js ''a'', completed = True\<rparr>,
             \<lparr>task_id = 6, task_text = js ''b'', completed = False\<rparr>,
             \<lparr>task_id = 5, task_text = js ''c'', completed = False\<rparr>]
       \<and> tasks (handleDeleteTask 5 (initial T))
          = [\<lparr>task_id = 6, task_text = js ''b'', completed = False\<rparr>])"
proof -
  have t: "trim (js ''x'') = js ''x''" by code_simp
  let ?T = "[\<lparr>task_id = 5, task_text = js ''a'', completed = False\<rparr>,
            \<lparr>task_id = 6, task_text = js ''b'', completed = False\<rparr>,
            \<lparr>task_id = 5, task_text = js ''c'', completed = True\<rparr>]"
  from id_operations_hit_every_match [where a = "initial ?T" and i = 5 and s = "js ''x''"]
  show ?thesis
    by (simp add: Let_def initial_def handleUpdateTask_def handleToggleComplete_def
        handleDeleteTask_def t) (simp add: js_def)
qed

section \<open>The visible tasks\<close>

lemma includes_js_iff: "includes_js s sub \<longleftrightarrow> (\<exists>pre post. s = pre @ sub @ post)"
proof (induction s)
  case Nil
  then show ?case by auto
next
  case (Cons c cs)
  show ?case
  proof
    assume "includes_js (c # cs) sub"
    then consider "prefix sub (c # cs)" | "includes_js cs sub" by auto
    then show "\<exists>pre post. c # cs = pre @ sub @ post"
    proof cases
      case 1
      then obtain post where "c # cs = sub @ post" by (auto simp: prefix_def)
      hence "c # cs = [] @ sub @ post" by simp
      thus ?thesis by blast
    next
      case 2
      then obtain pre post where "cs = pre @ sub @ post" using Cons.IH by blast
      hence "c # cs = (c # pre) @ sub @ post" by simp
      thus ?thesis by blast
    qed
  next
    assume "\<exists>pre post. c # cs = pre @ sub @ post"
    then obtain pre post where e: "c # cs = pre @ sub @ post" by blast
    show "includes_js (c # cs) sub"
    proof (cases pre)
      case Nil
      hence "prefix sub (c # cs)" using e by (simp add: prefix_def)
      thus ?thesis by simp
    next
      case (Cons p ps)
      hence "cs = ps @ sub @ post" using e by simp
      hence "includes_js cs sub" using Cons.IH by blast
      thus ?thesis by simp
    qed
  qed
qed

text \<open>
  C5. \<open>filteredTasks\<close> returns, in the order of the collection, exactly the tasks that
  pass the mode (active: not completed; completed: completed; all: every task) and, when
  the trimmed search text is not empty, whose lower-cased text contains the lower-cased
  trimmed search text as a contiguous substring.
\<close>

theorem filteredTasks_spec:
  "let q = lower (trim (search a));
       hit = (\<lambda>t. trim (search a) = [] \<or> (\<exists>pre post. lower (task_text t) = pre @ q @ post))
   in (filter_mode a = js ''all'' \<longrightarrow> filteredTasks lower a = filter hit (tasks a))
      \<and> (filter_mode a = js ''active'' \<longrightarrow>
            filteredTasks lower a = filter (\<lambda>t. \<not> completed t \<and> hit t) (tasks a))
      \<and> (filter_mode a = js ''completed'' \<longrightarrow>
            filteredTasks lower a = filter (\<lambda>t. completed t \<and> hit t) (tasks a))
      \<and> subseq (filteredTasks lower a) (tasks a)"
proof -
  have ne: "js ''all'' \<noteq> js ''active''" "js ''all'' \<noteq> js ''completed''"
    "js ''active'' \<noteq> js ''completed''"
    by (simp_all add: js_def)
  have sub: "subseq (filteredTasks lower a) (tasks a)"
    by (simp add: filteredTasks_def Let_def)
  show ?thesis
    using ne sub
    by (auto simp: filteredTasks_def Let_def includes_js_iff intro!: filter_cong)
qed

theorem filteredTasks_spec_witness:
  "(let a = (initial [\<lparr>task_id = 1, task_text = js ''Buy milk'', completed = False\<rparr>,
                      \<lparr>task_id = 2, task_text = js ''Write report'', completed = True\<rparr>])
                \<lparr>search := js '' Report''\<rparr>
    in filter_mode a = js ''all''
       \<and> filteredTasks ascii_lower a
         = [\<lparr>task_id = 2, task_text = js ''Write report'', completed = True\<rparr>])"
proof -
  let ?a = "(initial [\<lparr>task_id = 1, task_text = js ''Buy milk'', completed = False\<rparr>,
                      \<lparr>task_id = 2, task_text = js ''Write report'', completed = True\<rparr>])
                \<lparr>search := js '' Report''\<rparr>"
  have t: "trim (js '' Report'') = js ''Report''" by code_simp
  have n: "js ''Report'' \<noteq> []" by (simp add: js_def)
  have i1: "includes_js (ascii_lower (js ''Write report'')) (ascii_lower (js ''Report''))"
    by code_simp
  have i2: "\<not> includes_js (ascii_lower (js ''Buy milk'')) (ascii_lower (js ''Report''))"
    by code_simp
  have m: "filter_mode ?a = js ''all''" by (simp add: initial_def)
  from filteredTasks_spec [of ascii_lower ?a] m
  have "filteredTasks ascii_lower ?a
        = filter (\<lambda>t. trim (search ?a) = [] \<or>
                   (\<exists>pre post. ascii_lower (task_text t)
                      = pre @ ascii_lower (trim (search ?a)) @ post)) (tasks ?a)"
    by (simp add: Let_def)
  also have "\<dots> = [\<lparr>task_id = 2, task_text = js ''Write report'', completed = True\<rparr>]"
    using i1 i2 n by (simp add: initial_def t includes_js_iff [symmetric])
  finally show ?thesis using m by (simp add: Let_def)
qed

section \<open>The parser always answers\<close>

text \<open>Each scanner consumes text; with fuel beyond twice the length of the text the
  parser never runs out.\<close>

lemma skip_ws_length: "length (skip_ws s) \<le> length s"
  by (simp add: skip_ws_def length_dropWhile_le)

lemma skip_ws_Cons_length: "skip_ws s = c # r \<Longrightarrow> length r < length s"
  using skip_ws_length [of s] by simp

lemma parse_chars_length: "parse_chars s = Some (str, r) \<Longrightarrow> length r < length s"
proof (induction s arbitrary: str r rule: parse_chars.induct)
  case 1
  then show ?case by simp
next
  case (2 c s)
  show ?case
  proof (cases "c = 0x22")
    case True
    thus ?thesis using 2(4) by simp
  next
    case q: False
    show ?thesis
    proof (cases "c = 0x5C")
      case False
      hence "consumed c (parse_chars s) = Some (str, r)"
        using q 2(4) by (simp split: if_splits)
      then obtain str' where "parse_chars s = Some (str', r)"
        by (auto simp: consumed_def split: option.splits)
      hence "length r < length s" using 2(3) q False
        by (cases "c < 0x20") (use 2(4) q False in auto)
      thus ?thesis by simp
    next
      case True
      then obtain e r' where s: "s = e # r'" using q 2(4) by (cases s) auto
      show ?thesis
      proof (cases "e = 0x75")
        case False
        then obtain u where u: "unescape e = Some u" and "consumed u (parse_chars r') = Some (str, r)"
          using q True s 2(4) by (auto split: option.splits)
        then obtain str' where "parse_chars r' = Some (str', r)"
          by (auto simp: consumed_def split: option.splits)
        hence "length r < length r'" using 2(2) [OF q True s False u] by simp
        thus ?thesis using s by simp
      next
        case eu: True
        then obtain h1 h2 h3 h4 r'' where r': "r' = h1 # h2 # h3 # h4 # r''"
          using q True s 2(4) by (auto split: list.splits)
        then obtain u where u: "hex4 h1 h2 h3 h4 = Some u" and "consumed u (parse_chars r'') = Some (str, r)"
          using q True s eu 2(4) by (auto split: option.splits)
        then obtain str' where "parse_chars r'' = Some (str', r)"
          by (auto simp: consumed_def split: option.splits)
        hence "length r < length r''" using 2(1) q True s eu r' u by blast
        thus ?thesis using s r' by simp
      qed
    qed
  qed
qed

lemma parse_frac_length: "parse_frac s = Some (fd, r) \<Longrightarrow> length r \<le> length s"
  by (auto simp: parse_frac_def length_dropWhile_le le_SucI split: list.splits if_splits)

lemma parse_exp_length: "parse_exp s = Some (e, r) \<Longrightarrow> length r \<le> length s"
proof -
  assume a: "parse_exp s = Some (e, r)"
  show ?thesis
  proof (cases s)
    case Nil
    thus ?thesis using a by (simp add: parse_exp_def)
  next
    case (Cons c t)
    show ?thesis
    proof (cases "c = 0x65 \<or> c = 0x45")
      case False
      thus ?thesis using a Cons by (auto simp: parse_exp_def)
    next
      case True
      define r1 where "r1 = (if take 1 t = [0x2D] \<or> take 1 t = [0x2B] then drop 1 t else t)"
      have "r = dropWhile is_digit r1"
        using a Cons True by (auto simp: parse_exp_def Let_def r1_def split: if_splits)
      moreover have "length r1 \<le> length t" by (simp add: r1_def)
      moreover have "length (dropWhile is_digit r1) \<le> length r1" by (rule length_dropWhile_le)
      ultimately show ?thesis using Cons by simp
    qed
  qed
qed

lemma parse_unsigned_length: "parse_unsigned s = Some (q, r) \<Longrightarrow> length r < length s"
proof -
  assume a: "parse_unsigned s = Some (q, r)"
  then obtain c t where s: "s = c # t" by (cases s) (auto simp: parse_unsigned_def)
  have d: "is_digit c" using a s by (auto simp: parse_unsigned_def split: if_splits)
  define s2 where "s2 = (if c = 0x30 then t else dropWhile is_digit s)"
  have "length s2 \<le> length t"
    using d s length_dropWhile_le [of is_digit t] by (simp add: s2_def)
  moreover obtain fd s3 e where f: "parse_frac s2 = Some (fd, s3)" and e: "parse_exp s3 = Some (e, r)"
    using a s d by (auto simp: parse_unsigned_def Let_def s2_def split: option.splits if_splits)
  moreover have "length s3 \<le> length s2" using f by (rule parse_frac_length)
  moreover have "length r \<le> length s3" using e by (rule parse_exp_length)
  ultimately show ?thesis using s by simp
qed

lemma parse_number_length: "parse_number s = Some (q, r) \<Longrightarrow> length r < length s"
proof (cases "take 1 s = [0x2D]")
  case False
  assume "parse_number s = Some (q, r)"
  thus ?thesis using False parse_unsigned_length by (simp add: parse_number_def)
next
  case True
  assume "parse_number s = Some (q, r)"
  then obtain q' where "parse_unsigned (drop 1 s) = Some (q', r)"
    using True by (auto simp: parse_number_def split: option.splits)
  hence "length r < length (drop 1 s)" by (rule parse_unsigned_length)
  thus ?thesis by simp
qed



lemma parse_progress:
  "(\<forall>s v r. parse_value n s = Parsed v r \<longrightarrow> length r < length s)
   \<and> (\<forall>acc s v r. parse_elements n acc s = Parsed v r \<longrightarrow> length r < length s)
   \<and> (\<forall>acc s v r. parse_members n acc s = Parsed v r \<longrightarrow> length r < length s)"
proof (induction n)
  case 0
  show ?case by simp
next
  case (Suc n)
  have ihv: "parse_value n s = Parsed v r \<Longrightarrow> length r < length s" for s v r
    using Suc by blast
  have ihe: "parse_elements n acc s = Parsed v r \<Longrightarrow> length r < length s" for acc s v r
    using Suc by blast
  have ihm: "parse_members n acc s = Parsed v r \<Longrightarrow> length r < length s" for acc s v r
    using Suc by blast
  have v: "length r < length s" if a: "parse_value (Suc n) s = Parsed v r" for s v r
  proof -
    obtain c t where w: "skip_ws s = c # t" using a by (cases "skip_ws s") auto
    hence lt: "length t < length s" by (rule skip_ws_Cons_length)
    consider (obj) "c = 0x7B" | (arr) "c \<noteq> 0x7B" "c = 0x5B" | (str) "c \<noteq> 0x7B" "c \<noteq> 0x5B" "c = 0x22"
      | (other) "c \<noteq> 0x7B" "c \<noteq> 0x5B" "c \<noteq> 0x22" by blast
    then have "length r \<le> length t"
    proof cases
      case obj
      then obtain d t' where w': "skip_ws t = d # t'" using a w by (cases "skip_ws t") auto
      show ?thesis
      proof (cases "d = 0x7D")
        case True
        hence "r = t'" using a w w' obj by simp
        thus ?thesis using skip_ws_Cons_length [OF w'] by simp
      next
        case False
        hence "parse_members n [] t = Parsed v r" using a w w' obj by simp
        thus ?thesis using ihm less_imp_le by blast
      qed
    next
      case arr
      then obtain d t' where w': "skip_ws t = d # t'" using a w by (cases "skip_ws t") auto
      show ?thesis
      proof (cases "d = 0x5D")
        case True
        hence "r = t'" using a w w' arr by simp
        thus ?thesis using skip_ws_Cons_length [OF w'] by simp
      next
        case False
        hence "parse_elements n [] t = Parsed v r" using a w w' arr by simp
        thus ?thesis using ihe less_imp_le by blast
      qed
    next
      case str
      then obtain x where "parse_chars t = Some (x, r)"
        using a w by (auto split: option.splits)
      thus ?thesis using parse_chars_length less_imp_le by blast
    next
      case other
      have "r = drop 4 (c # t) \<or> r = drop 5 (c # t) \<or> (\<exists>q. parse_number (c # t) = Some (q, r))"
        using a w other by (auto split: if_splits option.splits)
      moreover have "length r \<le> length t" if "parse_number (c # t) = Some (q, r)" for q
        using parse_number_length [OF that] by simp
      ultimately show ?thesis by auto
    qed
    thus ?thesis using lt by simp
  qed
  have e: "length r < length s" if a: "parse_elements (Suc n) acc s = Parsed v r" for acc s v r
  proof -
    obtain x t where p: "parse_value n s = Parsed x t"
      using a by (cases "parse_value n s") auto
    hence l1: "length t < length s" by (rule ihv)
    obtain c t' where w: "skip_ws t = c # t'" using a p by (cases "skip_ws t") auto
    hence l2: "length t' < length t" by (rule skip_ws_Cons_length)
    have "parse_elements n (x # acc) t' = Parsed v r \<or> r = t'"
      using a p w by (auto split: if_splits)
    thus ?thesis using ihe l1 l2 by (metis less_trans)
  qed
  have m: "length r < length s" if a: "parse_members (Suc n) acc s = Parsed v r" for acc s v r
  proof -
    obtain c t where w: "skip_ws s = c # t" using a by (cases "skip_ws s") auto
    hence l0: "length t < length s" by (rule skip_ws_Cons_length)
    have c: "c = 0x22" using a w by (auto split: if_splits)
    obtain k t1 where pc: "parse_chars t = Some (k, t1)"
      using a w c by (auto split: option.splits)
    hence l1: "length t1 < length t" by (rule parse_chars_length)
    obtain d t2 where w2: "skip_ws t1 = d # t2" using a w c pc by (cases "skip_ws t1") auto
    hence l2: "length t2 < length t1" by (rule skip_ws_Cons_length)
    have d: "d = 0x3A" using a w c pc w2 by (auto split: if_splits)
    obtain x t3 where pv: "parse_value n t2 = Parsed x t3"
      using a w c pc w2 d by (cases "parse_value n t2") auto
    hence l3: "length t3 < length t2" by (rule ihv)
    obtain e t4 where w4: "skip_ws t3 = e # t4" using a w c pc w2 d pv by (cases "skip_ws t3") auto
    hence l4: "length t4 < length t3" by (rule skip_ws_Cons_length)
    have "parse_members n (AList.update k x acc) t4 = Parsed v r \<or> r = t4"
      using a w c pc w2 d pv w4 by (auto split: if_splits)
    hence "length r \<le> length t4" using ihm less_imp_le by blast
    thus ?thesis using l0 l1 l2 l3 l4 by simp
  qed
  show ?case using v e m by blast
qed


lemma parse_value_progress: "parse_value n s = Parsed v r \<Longrightarrow> length r < length s"
  using parse_progress [of n] by blast

lemma parse_fuel:
  "(\<forall>s. 2 * length s < n \<longrightarrow> parse_value n s \<noteq> Exhausted)
   \<and> (\<forall>acc s. 2 * length s + 1 < n \<longrightarrow> parse_elements n acc s \<noteq> Exhausted)
   \<and> (\<forall>acc s. 2 * length s < n \<longrightarrow> parse_members n acc s \<noteq> Exhausted)"
proof (induction n)
  case 0
  show ?case by simp
next
  case (Suc n)
  have ihv: "2 * length s < n \<Longrightarrow> parse_value n s \<noteq> Exhausted" for s
    using Suc by blast
  have ihe: "2 * length s + 1 < n \<Longrightarrow> parse_elements n acc s \<noteq> Exhausted" for acc s
    using Suc by blast
  have ihm: "2 * length s < n \<Longrightarrow> parse_members n acc s \<noteq> Exhausted" for acc s
    using Suc by blast
  have v: "parse_value (Suc n) s \<noteq> Exhausted" if f: "2 * length s < Suc n" for s
  proof (cases "skip_ws s")
    case Nil
    thus ?thesis by simp
  next
    case (Cons c t)
    hence "length t < length s" by (rule skip_ws_Cons_length)
    hence "2 * length t + 1 < n" using f by simp
    hence "parse_elements n [] t \<noteq> Exhausted" "parse_members n [] t \<noteq> Exhausted"
      using ihe [of t] ihm [of t] by simp_all
    thus ?thesis using Cons
      by (auto split: list.splits option.splits)
  qed
  have e: "parse_elements (Suc n) acc s \<noteq> Exhausted" if f: "2 * length s + 1 < Suc n" for acc s
  proof (cases "parse_value n s")
    case Exhausted
    thus ?thesis using ihv [of s] f by simp
  next
    case Malformed
    thus ?thesis by simp
  next
    case (Parsed x t)
    hence l1: "length t < length s" by (rule parse_value_progress)
    show ?thesis
    proof (cases "skip_ws t")
      case Nil
      thus ?thesis using Parsed by simp
    next
      case (Cons c t')
      hence "length t' < length t" by (rule skip_ws_Cons_length)
      hence "2 * length t' + 1 < n" using l1 f by simp
      hence "parse_elements n (x # acc) t' \<noteq> Exhausted" by (rule ihe)
      thus ?thesis using Parsed Cons by simp
    qed
  qed
  have m: "parse_members (Suc n) acc s \<noteq> Exhausted" if f: "2 * length s < Suc n" for acc s
  proof (cases "skip_ws s")
    case Nil
    thus ?thesis by simp
  next
    case w: (Cons c t)
    hence l0: "length t < length s" by (rule skip_ws_Cons_length)
    show ?thesis
    proof (cases "parse_chars t")
      case None
      thus ?thesis using w by simp
    next
      case (Some p)
      obtain k t1 where p: "p = (k, t1)" by (cases p)
      have l1: "length t1 < length t" using Some p parse_chars_length by blast
      show ?thesis
      proof (cases "skip_ws t1")
        case Nil
        thus ?thesis using w Some p by simp
      next
        case w2: (Cons d t2)
        hence l2: "length t2 < length t1" by (rule skip_ws_Cons_length)
        hence "2 * length t2 < n" using l0 l1 f by simp
        hence nv: "parse_value n t2 \<noteq> Exhausted" by (rule ihv)
        show ?thesis
        proof (cases "parse_value n t2")
          case Exhausted
          thus ?thesis using nv by simp
        next
          case Malformed
          thus ?thesis using w Some p w2 by simp
        next
          case (Parsed x t3)
          hence l3: "length t3 < length t2" by (rule parse_value_progress)
          show ?thesis
          proof (cases "skip_ws t3")
            case Nil
            thus ?thesis using w Some p w2 Parsed by simp
          next
            case w4: (Cons e t4)
            hence "length t4 < length t3" by (rule skip_ws_Cons_length)
            hence "2 * length t4 < n" using l0 l1 l2 l3 f by simp
            hence "parse_members n (AList.update k x acc) t4 \<noteq> Exhausted" by (rule ihm)
            thus ?thesis using w Some p w2 Parsed w4 by simp
          qed
        qed
      qed
    qed
  qed
  show ?case using v e m by blast
qed

lemma JSON_parse_total: "JSON_parse s \<noteq> Inl FuelExhausted"
proof -
  have "parse_value (Suc (length s + length s)) s \<noteq> Exhausted"
    using parse_fuel [of "Suc (length s + length s)"] by simp
  thus ?thesis by (auto simp: JSON_parse_def split: presult.splits)
qed

section \<open>Parsing what JSON.stringify wrote\<close>

lemma unat_of_nat16: "n < 65536 \<Longrightarrow> unat (of_nat n :: 16 word) = n"
  by (simp add: unat_of_nat take_bit_nat_eq_self)

lemma hex_digit_of_nat:
  "hex_digit d = (if d < 10 then of_nat (48 + d) else of_nat (87 + d))"
  by (simp add: hex_digit_def)

lemma hex_val_hex_digit: "d < 16 \<Longrightarrow> hex_val (hex_digit d) = Some d"
  unfolding hex_digit_of_nat hex_val_def
  by (simp add: word_le_nat_alt unat_of_nat16 del: of_nat_add)

lemma hex_split:
  "((n div 4096 * 16 + n div 256 mod 16) * 16 + n div 16 mod 16) * 16 + n mod 16 = (n::nat)"
proof -
  have a: "n div 256 = n div 16 div 16" by (simp add: div_mult2_eq)
  have b: "n div 4096 = n div 256 div 16" by (simp add: div_mult2_eq)
  have "n div 4096 * 16 + n div 256 mod 16 = n div 256" unfolding b by simp
  moreover have "n div 256 * 16 + n div 16 mod 16 = n div 16" unfolding a by simp
  moreover have "n div 16 * 16 + n mod 16 = n" by simp
  ultimately show ?thesis by simp
qed

lemma hex4_unicode_escape:
  "unicode_escape c = [0x5C, 0x75, h1, h2, h3, h4] \<Longrightarrow> hex4 h1 h2 h3 h4 = Some c"
proof -
  assume "unicode_escape c = [0x5C, 0x75, h1, h2, h3, h4]"
  hence h: "h1 = hex_digit (unat c div 4096)" "h2 = hex_digit (unat c div 256 mod 16)"
    "h3 = hex_digit (unat c div 16 mod 16)" "h4 = hex_digit (unat c mod 16)"
    by (simp_all add: unicode_escape_def)
  have lt: "unat c < 65536" using unsigned_less [of c, where 'a = nat] by simp
  hence a: "unat c div 4096 < 16" by simp
  have v: "hex_val h1 = Some (unat c div 4096)" "hex_val h2 = Some (unat c div 256 mod 16)"
    "hex_val h3 = Some (unat c div 16 mod 16)" "hex_val h4 = Some (unat c mod 16)"
    unfolding h using a by (simp_all add: hex_val_hex_digit)
  have "hex4 h1 h2 h3 h4 = Some (of_nat (unat c))"
    by (simp only: hex4_def v prod.case option.case hex_split)
  thus ?thesis by simp
qed


lemma consumed_Some: "consumed u (Some (str, rest)) = Some (u # str, rest)"
  by (simp add: consumed_def)

lemma parse_chars_quote_unit:
  assumes "parse_chars (q @ rest) = Some (str, rest')"
  shows "parse_chars (quote_unit c @ q @ rest) = Some (c # str, rest')"
proof -
  consider (short) "c \<in> {0x08, 0x09, 0x0A, 0x0C, 0x0D, 0x22, 0x5C}"
    | (esc) "c \<notin> {0x08, 0x09, 0x0A, 0x0C, 0x0D, 0x22, 0x5C}" "c < 0x20 \<or> is_lead c \<or> is_trail c"
    | (plain) "c \<notin> {0x08, 0x09, 0x0A, 0x0C, 0x0D, 0x22, 0x5C}" "\<not> (c < 0x20 \<or> is_lead c \<or> is_trail c)"
    by blast
  then show ?thesis
  proof cases
    case short
    then show ?thesis using assms
      by (auto simp: quote_unit_def unescape_def consumed_def)
  next
    case esc
    hence q: "quote_unit c = unicode_escape c" by (simp add: quote_unit_def)
    obtain h1 h2 h3 h4 where u: "unicode_escape c = [0x5C, 0x75, h1, h2, h3, h4]"
      by (simp add: unicode_escape_def)
    have "hex4 h1 h2 h3 h4 = Some c" using u by (rule hex4_unicode_escape)
    thus ?thesis unfolding q u using assms by (simp add: consumed_def)
  next
    case plain
    thus ?thesis using assms by (simp add: quote_unit_def consumed_def)
  qed
qed

lemma parse_chars_quote_chars:
  "parse_chars (quote_chars s @ 0x22 # rest) = Some (s, rest)"
proof (induction s rule: quote_chars.induct)
  case (1 c d r)
  show ?case
  proof (cases "is_lead c \<and> is_trail d")
    case True
    hence c: "c \<noteq> 0x22" "c \<noteq> 0x5C" "\<not> c < 0x20" and d: "d \<noteq> 0x22" "d \<noteq> 0x5C" "\<not> d < 0x20"
      by (auto simp: is_lead_def is_trail_def word_le_nat_alt word_less_nat_alt)
    show ?thesis using True 1(1) c d by (simp add: consumed_def)
  next
    case False
    hence "parse_chars (quote_chars (d # r) @ 0x22 # rest) = Some (d # r, rest)"
      using 1(2) by simp
    hence "parse_chars (quote_unit c @ quote_chars (d # r) @ 0x22 # rest) = Some (c # d # r, rest)"
      by (rule parse_chars_quote_unit)
    moreover have "quote_chars (c # d # r) = quote_unit c @ quote_chars (d # r)"
      using False by auto
    ultimately show ?thesis by (simp only: append_assoc)
  qed
next
  case (2 c)
  have "parse_chars ([] @ 0x22 # rest) = Some ([], rest)" by simp
  hence "parse_chars (quote_unit c @ [] @ 0x22 # rest) = Some ([c], rest)"
    by (rule parse_chars_quote_unit)
  thus ?case by (simp only: quote_chars.simps append_Nil)
next
  case 3
  show ?case by simp
qed


lemma digit_unit:
  assumes "d < 10"
  shows "is_digit (0x30 + of_nat d)" and "unat (0x30 + of_nat d :: 16 word) - 0x30 = d"
    and "(0x30 + of_nat d :: 16 word) = 0x30 \<longleftrightarrow> d = 0"
proof -
  have e: "(0x30 + of_nat d :: 16 word) = of_nat (48 + d)" by simp
  have u: "unat (of_nat (48 + d) :: 16 word) = 48 + d"
    using assms by (simp add: unat_of_nat16 del: of_nat_add)
  show "is_digit (0x30 + of_nat d)" unfolding e is_digit_def word_le_nat_alt u using assms by simp
  show "unat (0x30 + of_nat d :: 16 word) - 0x30 = d" unfolding e u by simp
  have "(of_nat (48 + d) :: 16 word) = 0x30 \<longleftrightarrow> unat (of_nat (48 + d) :: 16 word) = unat (0x30 :: 16 word)"
    by (simp only: word_unat_eq_iff)
  thus "(0x30 + of_nat d :: 16 word) = 0x30 \<longleftrightarrow> d = 0" unfolding e u by simp
qed

lemma digits_nonempty: "digits n \<noteq> []"
  by (subst digits.simps) simp

lemma digits_are_digits: "c \<in> set (digits n) \<Longrightarrow> is_digit c"
proof (induction n arbitrary: c rule: digits.induct)
  case (1 n)
  show ?case
  proof (cases "n < 10")
    case True
    hence "digits n = [0x30 + of_nat n]" by (subst digits.simps) simp
    thus ?thesis using 1(2) True by (simp add: digit_unit(1))
  next
    case False
    hence "digits n = digits (n div 10) @ [0x30 + of_nat (n mod 10)]"
      by (subst digits.simps) simp
    thus ?thesis using 1 False by (auto simp: digit_unit(1))
  qed
qed

lemma digits_val_snoc: "digits_val (ds @ [c]) = 10 * digits_val ds + (unat c - 0x30)"
  by (simp add: digits_val_def)

lemma digits_val_digits: "digits_val (digits n) = n"
proof (induction n rule: digits.induct)
  case (1 n)
  show ?case
  proof (cases "n < 10")
    case True
    hence "digits n = [0x30 + of_nat n]" by (subst digits.simps) simp
    thus ?thesis using True digit_unit(2) [of n] by (simp add: digits_val_def)
  next
    case False
    hence e: "digits n = digits (n div 10) @ [0x30 + of_nat (n mod 10)]"
      by (subst digits.simps) simp
    have "digits_val (digits n) = 10 * (n div 10) + n mod 10"
      unfolding e digits_val_snoc using 1 False digit_unit(2) [of "n mod 10"] by simp
    thus ?thesis by simp
  qed
qed

lemma digits_hd: "0 < n \<Longrightarrow> hd (digits n) \<noteq> 0x30"
proof (induction n rule: digits.induct)
  case (1 n)
  show ?case
  proof (cases "n < 10")
    case True
    hence "digits n = [0x30 + of_nat n]" by (subst digits.simps) simp
    thus ?thesis using True 1(2) digit_unit(3) [of n] by simp
  next
    case False
    hence e: "digits n = digits (n div 10) @ [0x30 + of_nat (n mod 10)]"
      by (subst digits.simps) simp
    have "0 < n div 10" using False by simp
    hence "hd (digits (n div 10)) \<noteq> 0x30" using 1(1) False by simp
    thus ?thesis unfolding e using digits_nonempty [of "n div 10"] by simp
  qed
qed

lemma span_digits:
  assumes "\<not> is_digit c"
  shows "takeWhile is_digit (digits n @ c # r) = digits n"
    and "dropWhile is_digit (digits n @ c # r) = c # r"
  using assms digits_are_digits [of _ n]
  by (simp_all add: takeWhile_append2 dropWhile_append2)

lemma parse_unsigned_digits:
  "parse_unsigned (digits n @ 0x2C # r) = Some (of_nat n, 0x2C # r)"
proof -
  obtain c ds where ds: "digits n = c # ds" using digits_nonempty [of n] by (cases "digits n") auto
  have cd: "is_digit c" using digits_are_digits [of c n] ds by simp
  have nc: "\<not> is_digit 0x2C" by (simp add: is_digit_def)
  have tail: "parse_frac (0x2C # r) = Some ([], 0x2C # r)" "parse_exp (0x2C # r) = Some (0, 0x2C # r)"
    by (simp_all add: parse_frac_def parse_exp_def)
  have z: "digits_val [] = 0" by (simp add: digits_val_def)
  show ?thesis
  proof (cases "c = 0x30")
    case True
    have "n = 0"
    proof (rule ccontr)
      assume "n \<noteq> 0"
      hence "hd (digits n) \<noteq> 0x30" using digits_hd [of n] by simp
      thus False using ds True by simp
    qed
    hence "digits n = [0x30]" by (subst digits.simps) simp
    thus ?thesis using \<open>n = 0\<close> tail
      by (simp add: parse_unsigned_def Let_def is_digit_def digits_val_def scale10_def)
  next
    case False
    have t: "takeWhile is_digit (c # ds @ 0x2C # r) = digits n"
      "dropWhile is_digit (c # ds @ 0x2C # r) = 0x2C # r"
      using span_digits [OF nc, of n r] ds by simp_all
    show ?thesis unfolding ds
      using False cd tail t z
      by (simp add: parse_unsigned_def Let_def digits_val_digits scale10_def del: takeWhile.simps dropWhile.simps)
  qed
qed

lemma parse_number_number_to_string:
  "parse_number (number_to_string i @ 0x2C # r) = Some (of_int i, 0x2C # r)"
proof (cases "i < 0")
  case False
  obtain c ds where ds: "digits (nat i) = c # ds"
    using digits_nonempty [of "nat i"] by (cases "digits (nat i)") auto
  have "is_digit c" using digits_are_digits [of c "nat i"] ds by simp
  hence nm: "c \<noteq> 0x2D" by (auto simp: is_digit_def)
  have "number_to_string i = digits (nat i)" using False by (simp add: number_to_string_def)
  moreover have "parse_number (digits (nat i) @ 0x2C # r) = parse_unsigned (digits (nat i) @ 0x2C # r)"
    unfolding ds using nm by (simp add: parse_number_def)
  ultimately show ?thesis using False parse_unsigned_digits [of "nat i" r] by simp
next
  case True
  let ?n = "nat (- i)"
  have e: "number_to_string i = 0x2D # digits ?n" using True by (simp add: number_to_string_def)
  have "parse_number (0x2D # digits ?n @ 0x2C # r) = Some (- of_nat ?n, 0x2C # r)"
    by (simp add: parse_number_def parse_unsigned_digits)
  moreover have "(- of_nat ?n :: rat) = of_int i" using True by simp
  ultimately show ?thesis unfolding e by simp
qed


lemma skip_ws_non_ws: "\<not> is_json_ws c \<Longrightarrow> skip_ws (c # r) = c # r"
  by (simp add: skip_ws_def)

lemma number_to_string_hd:
  "\<exists>c cs. number_to_string i = c # cs \<and> (c = 0x2D \<or> is_digit c)"
proof (cases "i < 0")
  case True
  thus ?thesis by (simp add: number_to_string_def)
next
  case False
  obtain c ds where ds: "digits (nat i) = c # ds"
    using digits_nonempty [of "nat i"] by (cases "digits (nat i)") auto
  have "is_digit c" using digits_are_digits [of c "nat i"] ds by simp
  thus ?thesis using False ds by (simp add: number_to_string_def)
qed

lemma parse_value_number:
  "parse_value (Suc n) (number_to_string i @ 0x2C # r) = Parsed (JNum (of_int i)) (0x2C # r)"
proof -
  obtain c cs where e: "number_to_string i = c # cs" and c: "c = 0x2D \<or> is_digit c"
    using number_to_string_hd [of i] by blast
  have w: "skip_ws (c # cs @ 0x2C # r) = c # cs @ 0x2C # r"
    using c by (intro skip_ws_non_ws) (auto simp: is_json_ws_def is_digit_def)
  have n: "c \<noteq> 0x7B" "c \<noteq> 0x5B" "c \<noteq> 0x22" "c \<noteq> 0x74" "c \<noteq> 0x66" "c \<noteq> 0x6E"
    using c by (auto simp: is_digit_def)
  have p: "parse_number (c # cs @ 0x2C # r) = Some (of_int i, 0x2C # r)"
    using parse_number_number_to_string [of i r] e by simp
  show ?thesis unfolding e using n p
    by (simp add: w js_def del: skip_ws_non_ws)
qed

lemma parse_value_string:
  "parse_value (Suc n) (QuoteJSONString s @ r) = Parsed (JStr s) r"
proof -
  have w: "skip_ws (0x22 # quote_chars s @ 0x22 # r) = 0x22 # quote_chars s @ 0x22 # r"
    by (intro skip_ws_non_ws) (simp add: is_json_ws_def)
  show ?thesis
    by (simp add: QuoteJSONString_def w parse_chars_quote_chars)
qed

lemma parse_value_bool:
  "parse_value (Suc n) ((if b then js ''true'' else js ''false'') @ r) = Parsed (JBool b) r"
  by (simp add: js_def skip_ws_def is_json_ws_def)

lemma skip_ws_units:
  "skip_ws (0x2C # r) = 0x2C # r" "skip_ws (0x7D # r) = 0x7D # r" "skip_ws (0x5D # r) = 0x5D # r"
  "skip_ws (0x3A # r) = 0x3A # r" "skip_ws (0x22 # r) = 0x22 # r" "skip_ws (0x7B # r) = 0x7B # r"
  "skip_ws (0x5B # r) = 0x5B # r"
  by (simp_all add: skip_ws_def is_json_ws_def)

lemma parse_members_more:
  assumes "parse_value n vs = Parsed v (0x2C # r)"
  shows "parse_members (Suc n) acc (QuoteJSONString k @ 0x3A # vs)
         = parse_members n (AList.update k v acc) r"
  using assms by (simp add: QuoteJSONString_def skip_ws_units parse_chars_quote_chars)

lemma parse_members_last:
  assumes "parse_value n vs = Parsed v (0x7D # r)"
  shows "parse_members (Suc n) acc (QuoteJSONString k @ 0x3A # vs)
         = Parsed (JObj (AList.update k v acc)) r"
  using assms by (simp add: QuoteJSONString_def skip_ws_units parse_chars_quote_chars)

lemma parse_value_object:
  "parse_value (Suc n) (0x7B # QuoteJSONString k @ r) = parse_members n [] (QuoteJSONString k @ r)"
  by (simp add: QuoteJSONString_def skip_ws_units)

lemma parse_value_array:
  "parse_value (Suc n) (0x5B # 0x7B # r) = parse_elements n [] (0x7B # r)"
  "parse_value (Suc n) (0x5B # 0x5D # r) = Parsed (JArr []) r"
  by (simp_all add: skip_ws_units)

lemma parse_elements_more:
  assumes "parse_value n s = Parsed v (0x2C # r)"
  shows "parse_elements (Suc n) acc s = parse_elements n (v # acc) r"
  using assms by (simp add: skip_ws_units)

lemma parse_elements_last:
  assumes "parse_value n s = Parsed v (0x5D # r)"
  shows "parse_elements (Suc n) acc s = Parsed (JArr (rev (v # acc))) r"
  using assms by (simp add: skip_ws_units)

declare parse_value.simps [simp del] parse_elements.simps [simp del] parse_members.simps [simp del]

lemma parse_value_task:
  "parse_value (Suc (Suc (Suc (Suc (Suc n))))) (stringify_task t @ r) = Parsed (json_of_task t) r"
proof -
  let ?b = "(if completed t then js ''true'' else js ''false'')"
  let ?m3 = "QuoteJSONString (js ''completed'') @ 0x3A # ?b @ 0x7D # r"
  let ?m2 = "QuoteJSONString (js ''text'') @ 0x3A # QuoteJSONString (task_text t) @ 0x2C # ?m3"
  let ?m1 = "QuoteJSONString (js ''id'') @ 0x3A # number_to_string (task_id t) @ 0x2C # ?m2"
  let ?v1 = "JNum (of_int (task_id t))" and ?v2 = "JStr (task_text t)" and ?v3 = "JBool (completed t)"
  have s: "stringify_task t @ r = 0x7B # ?m1"
    by (simp add: stringify_task_def)
  have k: "js ''id'' \<noteq> js ''text''" "js ''id'' \<noteq> js ''completed''" "js ''text'' \<noteq> js ''completed''"
    by (simp_all add: js_def)
  have "parse_value (Suc (Suc (Suc (Suc (Suc n))))) (0x7B # ?m1)
        = parse_members (Suc (Suc (Suc (Suc n)))) [] ?m1"
    by (rule parse_value_object)
  also have "\<dots> = parse_members (Suc (Suc (Suc n))) (AList.update (js ''id'') ?v1 []) ?m2"
    by (rule parse_members_more) (rule parse_value_number)
  also have "\<dots> = parse_members (Suc (Suc n))
                     (AList.update (js ''text'') ?v2 (AList.update (js ''id'') ?v1 [])) ?m3"
    by (rule parse_members_more) (simp only: parse_value_string append_assoc [symmetric])
  also have "\<dots> = Parsed (JObj (AList.update (js ''completed'') ?v3
                     (AList.update (js ''text'') ?v2 (AList.update (js ''id'') ?v1 [])))) r"
    by (rule parse_members_last) (simp only: parse_value_bool append_assoc [symmetric])
  also have "\<dots> = Parsed (json_of_task t) r"
    using k by (simp add: json_of_task_def)
  finally show ?thesis unfolding s .
qed

lemma length_stringify_task: "3 \<le> length (stringify_task t)"
  by (simp add: stringify_task_def QuoteJSONString_def)

lemma stringify_task_hd: "\<exists>r. stringify_task t = 0x7B # r"
  by (simp add: stringify_task_def)

lemma parse_elements_tasks:
  "parse_elements (length T + 6 + n) acc (join_comma (map stringify_task (t # T)) @ 0x5D # r)
   = Parsed (JArr (rev acc @ map json_of_task (t # T))) r"
proof (induction T arbitrary: t acc)
  case Nil
  have "parse_elements (Suc (Suc (Suc (Suc (Suc (Suc n)))))) acc (stringify_task t @ 0x5D # r)
        = Parsed (JArr (rev (json_of_task t # acc))) r"
    by (rule parse_elements_last) (rule parse_value_task)
  thus ?case by (simp add: numeral_eq_Suc)
next
  case (Cons u T)
  have "parse_elements (Suc (Suc (Suc (Suc (Suc (Suc (length T + n)))))) + 1) acc
          (stringify_task t @ 0x2C # join_comma (map stringify_task (u # T)) @ 0x5D # r)
        = parse_elements (Suc (Suc (Suc (Suc (Suc (Suc (length T + n))))))) (json_of_task t # acc)
            (join_comma (map stringify_task (u # T)) @ 0x5D # r)"
    unfolding Suc_eq_plus1 [symmetric]
    by (rule parse_elements_more) (rule parse_value_task)
  also have "\<dots> = Parsed (JArr (rev (json_of_task t # acc) @ map json_of_task (u # T))) r"
    using Cons.IH [of "json_of_task t # acc" u] by (simp add: numeral_eq_Suc)
  finally show ?case by (simp add: numeral_eq_Suc)
qed

lemma length_join_comma: "3 * length T \<le> length (join_comma (map stringify_task T))"
proof (induction T rule: induct_list012)
  case 1
  show ?case by simp
next
  case (2 t)
  show ?case using length_stringify_task [of t] by simp
next
  case (3 t u T)
  show ?case using 3(2) length_stringify_task [of t] by simp
qed

lemma JSON_parse_stringify: "JSON_parse (JSON_stringify T) = Inr (json_of_tasks T)"
proof (cases T)
  case Nil
  have "parse_value (Suc n) (0x5B # 0x5D # []) = Parsed (JArr []) []" for n
    by (rule parse_value_array)
  thus ?thesis using Nil
    by (simp add: JSON_parse_def JSON_stringify_def json_of_tasks_def skip_ws_def)
next
  case (Cons t U)
  let ?body = "join_comma (map stringify_task (t # U))"
  obtain b where b: "?body @ [0x5D] = 0x7B # b"
    using stringify_task_hd [of t] by (cases U) auto
  have len: "3 * length (t # U) \<le> length ?body" by (rule length_join_comma)
  define L where "L = length ?body"
  have len2: "length (JSON_stringify T) = L + 2"
    by (simp add: JSON_stringify_def Cons L_def)
  have "3 * Suc (length U) \<le> L" using len by (simp add: L_def)
  hence "length U + 6 \<le> L + 2 + (L + 2)" by simp
  then obtain k where k: "L + 2 + (L + 2) = length U + 6 + k"
    using le_Suc_ex by blast
  have f: "Suc (length (JSON_stringify T) + length (JSON_stringify T)) = Suc (length U + 6 + k)"
    unfolding len2 k ..
  have "parse_value (Suc (length U + 6 + k)) (0x5B # ?body @ [0x5D])
        = parse_elements (length U + 6 + k) [] (?body @ [0x5D])"
    unfolding b by (rule parse_value_array)
  also have "\<dots> = Parsed (JArr (rev [] @ map json_of_task (t # U))) []"
    by (rule parse_elements_tasks)
  finally show ?thesis unfolding JSON_parse_def f
    by (simp add: JSON_stringify_def json_of_tasks_def Cons skip_ws_def)
qed

section \<open>Persisting and loading\<close>

lemma task_of_json_of_task: "task_of_json (json_of_task t) = Some t"
  by (simp add: json_of_task_def)

lemma tasks_of_json_of_tasks: "tasks_of_json (json_of_tasks T) = Some T"
  by (induction T) (simp_all add: json_of_tasks_def task_of_json_of_task)

lemma JSON_stringify_nonempty: "JSON_stringify T \<noteq> []"
  by (simp add: JSON_stringify_def)

lemma load_persist: "load (persist T st) = Inr (json_of_tasks T)"
  by (simp add: load_def persist_def getItem_def setItem_def JSON_stringify_nonempty
      JSON_parse_stringify)

text \<open>
  C6. For a collection whose ids are safe integers (as every reading of the clock is),
  what \<open>load\<close> reads after \<open>persist\<close> wrote the collection is the collection: the
  parsed value is the collection as a value, it reads back as the same list of tasks, and
  the component mounts with it.
\<close>

theorem persist_load_roundtrip:
  assumes "\<forall>t\<in>set T. safe_integer (task_id t)"
  shows "load (persist T st) = Inr (json_of_tasks T)
         \<and> tasks_of_json (json_of_tasks T) = Some T
         \<and> mount (persist T st) = Inr (initial T)"
  by (simp add: mount_def load_persist tasks_of_json_of_tasks)

theorem persist_load_roundtrip_witness:
  "mount (persist [\<lparr>task_id = 1730000000000, task_text = js ''Buy milk'', completed = False\<rparr>,
                   \<lparr>task_id = 1730000000001, task_text = js ''Write \"report\"'', completed = True\<rparr>]
            Map.empty)
   = Inr (initial [\<lparr>task_id = 1730000000000, task_text = js ''Buy milk'', completed = False\<rparr>,
                   \<lparr>task_id = 1730000000001, task_text = js ''Write \"report\"'', completed = True\<rparr>])"
proof -
  let ?T = "[\<lparr>task_id = 1730000000000, task_text = js ''Buy milk'', completed = False\<rparr>,
             \<lparr>task_id = 1730000000001, task_text = js ''Write \"report\"'', completed = True\<rparr>]"
  have "\<forall>t\<in>set ?T. safe_integer (task_id t)" by (simp add: safe_integer_def)
  from persist_load_roundtrip [OF this, of Map.empty] show ?thesis by simp
qed

section \<open>Loading a store that holds anything\<close>

text \<open>
  C2, as stated, fails: with a stored value that is not JSON (here a write cut short),
  \<open>JSON.parse\<close> throws and \<open>load\<close> ends with the \<open>SyntaxError\<close>, not with the empty
  collection.
\<close>

theorem load_unparsable_fails:
  "load (Map.empty(js ''todo_tasks'' \<mapsto> js ''[{\"id\":1,'')) = Inl SyntaxError"
  by code_simp

lemma JSON_parse_failure: "JSON_parse s = Inl e \<Longrightarrow> e = SyntaxError"
  using JSON_parse_total [of s]
  by (auto simp: JSON_parse_def split: presult.splits if_splits)

text \<open>
  C2, amended. When nothing is stored under \<open>todo_tasks\<close>, or the empty string is,
  \<open>load\<close> yields the empty collection. When a non-empty value is stored, \<open>load\<close>
  yields what \<open>JSON.parse\<close> returns for it, and fails, with the \<open>SyntaxError\<close> of
  \<open>JSON.parse\<close> and with nothing else, when the value is not JSON.
\<close>

theorem load_outcome:
  "(getItem st (js ''todo_tasks'') = None \<or> getItem st (js ''todo_tasks'') = Some []
      \<longrightarrow> load st = Inr (JArr []))
   \<and> (\<forall>stored. getItem st (js ''todo_tasks'') = Some stored \<and> stored \<noteq> []
        \<longrightarrow> load st = JSON_parse stored \<and> (\<forall>e. load st = Inl e \<longrightarrow> e = SyntaxError))"
  by (auto simp: load_def dest: JSON_parse_failure)

theorem load_outcome_witness:
  "load Map.empty = Inr (JArr [])
   \<and> load (Map.empty(js ''todo_tasks'' \<mapsto> [])) = Inr (JArr [])
   \<and> load (Map.empty(js ''todo_tasks'' \<mapsto> js ''[ ]'')) = Inr (JArr [])
   \<and> load (Map.empty(js ''todo_tasks'' \<mapsto> js ''oops'')) = Inl SyntaxError"
proof -
  have p: "JSON_parse (js ''[ ]'') = Inr (JArr [])" "JSON_parse (js ''oops'') = Inl SyntaxError"
    by code_simp+
  have n: "js ''[ ]'' \<noteq> []" "js ''oops'' \<noteq> []" by (simp_all add: js_def)
  from load_outcome [of Map.empty] load_outcome [of "Map.empty(js ''todo_tasks'' \<mapsto> [])"]
    load_outcome [of "Map.empty(js ''todo_tasks'' \<mapsto> js ''[ ]'')"]
    load_outcome [of "Map.empty(js ''todo_tasks'' \<mapsto> js ''oops'')"]
  show ?thesis using p n by (simp add: getItem_def)
qed

section \<open>Distinct ids\<close>

lemma ids_handleUpdateTask: "map task_id (tasks (handleUpdateTask a)) = map task_id (tasks a)"
  by (simp add: handleUpdateTask_def comp_def if_distrib [of task_id] cong: if_cong)

lemma ids_handleToggleComplete:
  "map task_id (tasks (handleToggleComplete i a)) = map task_id (tasks a)"
  by (simp add: handleToggleComplete_def comp_def if_distrib [of task_id] cong: if_cong)

lemma ids_step:
  assumes "distinct (map task_id (tasks a))" and "fresh_reading a e"
  shows "distinct (map task_id (tasks (handle e a)))"
proof (cases e)
  case (AddTask now)
  thus ?thesis using assms by (simp add: handleAddTask_def)
next
  case (DeleteTask i)
  thus ?thesis using assms by (simp add: handleDeleteTask_def Let_def distinct_map_filter)
next
  case UpdateTask
  thus ?thesis using assms by (simp add: ids_handleUpdateTask)
next
  case (ToggleComplete i)
  thus ?thesis using assms by (simp add: ids_handleToggleComplete)
qed (use assms in \<open>simp_all add: handleEditTask_def handleFilterChange_def
       handleSearchChange_def handleKey_def\<close>)

lemma ids_run:
  "distinct (map task_id (tasks a)) \<Longrightarrow> fresh_clock a es
   \<Longrightarrow> distinct (map task_id (tasks (run es a)))"
proof (induction es arbitrary: a)
  case Nil
  thus ?case by simp
next
  case (Cons e es)
  have "distinct (map task_id (tasks (handle e a)))"
    using Cons.prems by (intro ids_step) simp_all
  thus ?case using Cons by simp
qed

lemma add_twice:
  assumes "trim s \<noteq> []"
  shows "tasks (run [InputChange s, AddTask now1, InputChange s, AddTask now2] a)
         = tasks a @ [\<lparr>task_id = now1, task_text = trim s, completed = False\<rparr>,
                      \<lparr>task_id = now2, task_text = trim s, completed = False\<rparr>]"
  using assms by (simp add: handleAddTask_def)

text \<open>
  C1, as stated, fails. Two submits of \<open>Call mom\<close> that read the same clock value
  leave two tasks with one id; and a stored collection with a repeated id is loaded as it
  is.
\<close>

theorem ids_collide:
  "tasks (run [InputChange (js ''Call mom''), AddTask 1000,
               InputChange (js ''Call mom''), AddTask 1000] (initial []))
     = [\<lparr>task_id = 1000, task_text = js ''Call mom'', completed = False\<rparr>,
        \<lparr>task_id = 1000, task_text = js ''Call mom'', completed = False\<rparr>]
   \<and> \<not> distinct (map task_id (tasks (run [InputChange (js ''Call mom''), AddTask 1000,
               InputChange (js ''Call mom''), AddTask 1000] (initial []))))
   \<and> mount (Map.empty(js ''todo_tasks'' \<mapsto>
         js ''[{\"id\":7,\"text\":\"a\",\"completed\":false},{\"id\":7,\"text\":\"b\",\"completed\":true}]''))
     = Inr (initial [\<lparr>task_id = 7, task_text = js ''a'', completed = False\<rparr>,
                     \<lparr>task_id = 7, task_text = js ''b'', completed = True\<rparr>])"
proof -
  have t: "trim (js ''Call mom'') = js ''Call mom''" by code_simp
  have n: "js ''Call mom'' \<noteq> []" by (simp add: js_def)
  have r: "tasks (run [InputChange (js ''Call mom''), AddTask 1000,
               InputChange (js ''Call mom''), AddTask 1000] (initial []))
     = [\<lparr>task_id = 1000, task_text = js ''Call mom'', completed = False\<rparr>,
        \<lparr>task_id = 1000, task_text = js ''Call mom'', completed = False\<rparr>]"
    using n by (simp add: handleAddTask_def t initial_def)
  have m: "mount (Map.empty(js ''todo_tasks'' \<mapsto>
         js ''[{\"id\":7,\"text\":\"a\",\"completed\":false},{\"id\":7,\"text\":\"b\",\"completed\":true}]''))
     = Inr (initial [\<lparr>task_id = 7, task_text = js ''a'', completed = False\<rparr>,
                     \<lparr>task_id = 7, task_text = js ''b'', completed = True\<rparr>])"
    by code_simp
  show ?thesis unfolding r using m by simp
qed

text \<open>
  C1, amended. From a state whose ids are pairwise distinct, along events in which every
  submit of the add form reads a clock value that is not the id of a stored task, the ids
  stay pairwise distinct; and two successive submits of the same text with different
  clock readings add two tasks, both present, with that text and the two readings as
  ids.
\<close>

theorem ids_stay_distinct:
  "(distinct (map task_id (tasks a)) \<and> fresh_clock a es
      \<longrightarrow> distinct (map task_id (tasks (run es a))))
   \<and> (trim s \<noteq> [] \<and> now1 \<noteq> now2 \<longrightarrow>
        tasks (run [InputChange s, AddTask now1, InputChange s, AddTask now2] b)
        = tasks b @ [\<lparr>task_id = now1, task_text = trim s, completed = False\<rparr>,
                     \<lparr>task_id = now2, task_text = trim s, completed = False\<rparr>])"
  using ids_run [of a es] add_twice [of s now1 now2 b] by blast

theorem ids_stay_distinct_witness:
  "distinct (map task_id (tasks (run [InputChange (js ''Call mom''), AddTask 1000,
       InputChange (js ''Call mom''), AddTask 1001, ToggleComplete 1000, DeleteTask 7]
       (initial [\<lparr>task_id = 7, task_text = js ''a'', completed = False\<rparr>]))))
   \<and> tasks (run [InputChange (js ''Call mom''), AddTask 1000,
                 InputChange (js ''Call mom''), AddTask 1001] (initial []))
     = [\<lparr>task_id = 1000, task_text = js ''Call mom'', completed = False\<rparr>,
        \<lparr>task_id = 1001, task_text = js ''Call mom'', completed = False\<rparr>]"
proof -
  let ?a = "initial [\<lparr>task_id = 7, task_text = js ''a'', completed = False\<rparr>]"
  let ?es = "[InputChange (js ''Call mom''), AddTask 1000,
       InputChange (js ''Call mom''), AddTask 1001, ToggleComplete 1000, DeleteTask 7]"
  have t: "trim (js ''Call mom'') = js ''Call mom''" by code_simp
  have n: "js ''Call mom'' \<noteq> []" by (simp add: js_def)
  have d: "distinct (map task_id (tasks ?a))" by (simp add: initial_def)
  have f: "fresh_clock ?a ?es"
    using n by (simp add: initial_def handleAddTask_def t)
  from ids_stay_distinct [of ?a ?es "js ''Call mom''" 1000 1001 "initial []"] d f n
  show ?thesis by (simp add: t initial_def)
qed

section \<open>The texts of the stored tasks\<close>

lemma text_ok_trim: "trim s \<noteq> [] \<Longrightarrow> length s \<le> 120 \<Longrightarrow> text_ok (trim s)"
  using trim_length [of s] by (simp add: text_ok_def trim_hd trim_last)

lemma find_text_length:
  "texts_ok T \<Longrightarrow> find P T = Some t \<Longrightarrow> length (task_text t) \<le> 120"
  by (induction T) (auto simp: texts_ok_def text_ok_def split: if_splits)

lemma state_ok_step:
  assumes "state_ok a" and "enabled a e"
  shows "state_ok (handle e a)"
proof (cases e)
  case (AddTask now)
  thus ?thesis using assms
    by (auto simp: state_ok_def handleAddTask_def texts_ok_def text_ok_trim)
next
  case (EditTask i)
  thus ?thesis using assms find_text_length [of "tasks a" "\<lambda>t. task_id t = i"]
    by (auto simp: state_ok_def handleEditTask_def split: option.splits)
next
  case UpdateTask
  thus ?thesis using assms
    by (auto simp: state_ok_def handleUpdateTask_def texts_ok_def text_ok_trim list_all_iff)
next
  case (DeleteTask i)
  thus ?thesis using assms
    by (auto simp: state_ok_def handleDeleteTask_def Let_def texts_ok_def list_all_iff)
next
  case (ToggleComplete i)
  thus ?thesis using assms
    by (auto simp: state_ok_def handleToggleComplete_def texts_ok_def list_all_iff)
qed (use assms in \<open>auto simp: state_ok_def handleFilterChange_def handleSearchChange_def
       handleKey_def\<close>)

lemma state_ok_run: "state_ok a \<Longrightarrow> all_enabled a es \<Longrightarrow> state_ok (run es a)"
proof (induction es arbitrary: a)
  case Nil
  thus ?case by simp
next
  case (Cons e es)
  have "state_ok (handle e a)" using Cons.prems by (intro state_ok_step) simp_all
  thus ?case using Cons by simp
qed

lemma mount_initial: "mount st = Inr a \<Longrightarrow> \<exists>T. a = initial T"
  by (auto simp: mount_def split: sum.splits option.splits)

text \<open>
  C7, as stated, fails on \<open>load\<close>: a stored task with the empty text is loaded as it
  is.
\<close>

theorem load_keeps_invalid_text:
  "mount (Map.empty(js ''todo_tasks'' \<mapsto> js ''[{\"id\":1,\"text\":\"\",\"completed\":false}]''))
     = Inr (initial [\<lparr>task_id = 1, task_text = [], completed = False\<rparr>])
   \<and> \<not> texts_ok (tasks (initial [\<lparr>task_id = 1, task_text = [], completed = False\<rparr>]))"
proof -
  have "mount (Map.empty(js ''todo_tasks'' \<mapsto> js ''[{\"id\":1,\"text\":\"\",\"completed\":false}]''))
     = Inr (initial [\<lparr>task_id = 1, task_text = [], completed = False\<rparr>])"
    by code_simp
  thus ?thesis by (simp add: initial_def texts_ok_def text_ok_def)
qed

text \<open>
  C7, amended. When the collection the component mounted with has texts that are not
  empty, trimmed and at most 120 code units long, so has every state reached by the
  events the page lets through: adding, renaming, toggling and deleting keep the
  property. \<open>load\<close> checks nothing: the property holds after it when it holds of the
  stored collection.
\<close>

theorem texts_stay_ok:
  assumes "mount st = Inr a" and "texts_ok (tasks a)" and "all_enabled a es"
  shows "texts_ok (tasks (run es a))"
proof -
  obtain T where "a = initial T" using assms(1) mount_initial by blast
  hence "state_ok a" using assms(2) by (simp add: state_ok_def initial_def)
  hence "state_ok (run es a)" using assms(3) by (rule state_ok_run)
  thus ?thesis by (simp add: state_ok_def)
qed

theorem texts_stay_ok_witness:
  "tasks (run [InputChange (js ''  Walk dog ''), AddTask 2000, EditTask 1,
               EditInputChange (js ''Buy oat milk ''), UpdateTask, ToggleComplete 2000]
          (initial [\<lparr>task_id = 1, task_text = js ''Buy milk'', completed = False\<rparr>]))
     = [\<lparr>task_id = 1, task_text = js ''Buy oat milk'', completed = False\<rparr>,
        \<lparr>task_id = 2000, task_text = js ''Walk dog'', completed = True\<rparr>]
   \<and> texts_ok (tasks (run [InputChange (js ''  Walk dog ''), AddTask 2000, EditTask 1,
               EditInputChange (js ''Buy oat milk ''), UpdateTask, ToggleComplete 2000]
          (initial [\<lparr>task_id = 1, task_text = js ''Buy milk'', completed = False\<rparr>])))"
proof -
  let ?T = "[\<lparr>task_id = 1, task_text = js ''Buy milk'', completed = False\<rparr>]"
  let ?st = "persist ?T Map.empty"
  let ?es = "[InputChange (js ''  Walk dog ''), AddTask 2000, EditTask 1,
               EditInputChange (js ''Buy oat milk ''), UpdateTask, ToggleComplete 2000]"
  have m: "mount ?st = Inr (initial ?T)" by code_simp
  have v: "texts_ok (tasks (initial ?T))" by code_simp
  have e: "all_enabled (initial ?T) ?es" by code_simp
  have r: "tasks (run ?es (initial ?T))
     = [\<lparr>task_id = 1, task_text = js ''Buy oat milk'', completed = False\<rparr>,
        \<lparr>task_id = 2000, task_text = js ''Walk dog'', completed = True\<rparr>]"
    by code_simp
  from texts_stay_ok [OF m v e] r show ?thesis by simp
qed

end
